theory Spec2Isabelle
  imports Complex_Main "HOL-Library.Char_ord" "HOL-Library.List_Lexorder"
begin

section \<open>Strings and JavaScript values\<close>

text \<open>
  Strings are byte strings. \<open>trim\<close> and \<open>toLowerCase\<close> are the ASCII part of
  JavaScript's \<open>String.prototype.trim\<close> and \<open>toLowerCase\<close>.
  An optional or nullable value is an \<open>option\<close>; \<open>truthy\<close> is JavaScript's
  truthiness of a \<open>string | undefined\<close>: absent and the empty string are falsy.
\<close>

definition is_space :: "char \<Rightarrow> bool" where
  "is_space c = (c \<in> set [CHR 0x09, CHR 0x0A, CHR 0x0B, CHR 0x0C, CHR 0x0D, CHR 0x20])"

definition trim :: "string \<Rightarrow> string" where
  "trim s = rev (dropWhile is_space (rev (dropWhile is_space s)))"

definition lower_char :: "char \<Rightarrow> char" where
  "lower_char c =
     (case map_of (zip ''ABCDEFGHIJKLMNOPQRSTUVWXYZ'' ''abcdefghijklmnopqrstuvwxyz'') c of
        Some l \<Rightarrow> l
      | None \<Rightarrow> c)"

definition toLowerCase :: "string \<Rightarrow> string" where
  "toLowerCase s = map lower_char s"

fun indexOf :: "char \<Rightarrow> string \<Rightarrow> nat option" where
  "indexOf c [] = None"
| "indexOf c (x # xs) = (if x = c then Some 0 else map_option Suc (indexOf c xs))"

fun truthy :: "string option \<Rightarrow> bool" where
  "truthy None = False"
| "truthy (Some s) = (s \<noteq> [])"

section \<open>Data model\<close>

text \<open>The \<open>activePlayer\<close> value of the agent state: \<open>{ region?, name, tag }\<close>.\<close>

record active_player =
  region :: "string option"
  name :: string
  tag :: string

text \<open>A row of table \<open>valorant_matches\<close> (primary key \<open>id\<close>).\<close>

record match_row =
  m_id :: string
  m_region :: string
  m_name :: string
  m_tag :: string
  started_at :: "string option"
  m_mode :: "string option"
  m_map :: "string option"
  player_kills :: "int option"
  player_deaths :: "int option"
  player_assists :: "int option"
  raw :: "string option"

text \<open>A row of table \<open>valorant_player_stats\<close> (primary key \<open>match_id\<close>).\<close>

record stats_row =
  match_id :: string
  ps_region :: string
  ps_name :: string
  ps_tag :: string
  character :: "string option"
  ps_rank :: "string option"
  kills :: "int option"
  deaths :: "int option"
  assists :: "int option"
  bodyshots :: "int option"
  headshots :: "int option"
  legshots :: "int option"
  score :: "int option"
  spent_overall :: "int option"
  spent_avg :: "rat option"
  loadout_overall :: "int option"
  loadout_avg :: "rat option"
  damage_made :: "int option"
  damage_received :: "int option"

text \<open>A row of table \<open>player_cursor\<close> (primary key \<open>pk\<close>).\<close>

record cursor_row =
  pk :: string
  last_match_id :: "string option"
  last_started_at :: "string option"

text \<open>
  The agent: its state (of which the tools read and write \<open>activePlayer\<close> only; the
  record update leaves every other field as it is, as the spread \<open>...currentState\<close> does)
  and its three SQLite tables, each a list of rows in insertion order.
\<close>

record agent =
  activePlayer :: "active_player option"
  valorant_matches :: "match_row list"
  valorant_player_stats :: "stats_row list"
  player_cursor :: "cursor_row list"

text \<open>
  One entry of \<open>players.all_players\<close> of an upstream match. The optional chains
  \<open>p?.stats?.kills\<close>, \<open>p?.economy?.spent?.overall\<close> are flattened: an absent \<open>stats\<close> object
  reads like one with every field absent.
\<close>

record player_payload =
  pp_name :: "string option"
  pp_tag :: "string option"
  pp_character :: "string option"
  currenttier_patched :: "string option"
  stats_kills :: "int option"
  stats_deaths :: "int option"
  stats_assists :: "int option"
  stats_score :: "int option"
  stats_bodyshots :: "int option"
  stats_headshots :: "int option"
  stats_legshots :: "int option"
  economy_spent_overall :: "int option"
  economy_spent_average :: "rat option"
  economy_loadout_value_overall :: "int option"
  economy_loadout_value_average :: "rat option"
  pp_damage_made :: "int option"
  pp_damage_received :: "int option"

text \<open>
  One upstream match. \<open>meta_matchid\<close>, \<open>game_start_patched\<close>, \<open>game_start\<close>,
  \<open>meta_map\<close>, \<open>meta_mode\<close> are the fields of \<open>m.metadata\<close> (\<open>m?.metadata ?? {}\<close> reads
  an absent \<open>metadata\<close> as one with every field absent); \<open>matchid\<close> is the top-level
  \<open>m.matchid\<close>; \<open>all_players\<close> is \<open>m?.players?.all_players ?? []\<close>.
\<close>

record match_payload =
  meta_matchid :: "string option"
  matchid :: "string option"
  game_start_patched :: "string option"
  game_start :: "int option"
  meta_map :: "string option"
  meta_mode :: "string option"
  all_players :: "player_payload list"

text \<open>
  The HTTP response of the upstream API: \<open>res.ok\<close>, \<open>res.status\<close> and \<open>json.data\<close>
  (\<open>None\<close> when it is not an array).
\<close>

record http_response =
  res_ok :: bool
  res_status :: nat
  json_data :: "match_payload list option"

text \<open>The value \<open>fetchLatestCompetitive\<close> returns.\<close>

record fetch_result =
  ok :: bool
  status :: nat
  data :: "match_payload list"

text \<open>
  The upstream source as one tool call sees it: \<open>upstream n r\<close> is the response to the
  call's request number \<open>n\<close> (from 0), made for region \<open>r\<close>. Name and tag are fixed
  within a call.
\<close>

type_synonym upstream = "nat \<Rightarrow> string \<Rightarrow> http_response"

text \<open>
  \<open>new Date(ms).toISOString()\<close>, which throws a RangeError on an invalid date; it is a
  parameter \<open>toISOString\<close> of the model, \<open>None\<close> for the throw, applied to milliseconds.
\<close>

type_synonym iso = "int \<Rightarrow> string option"

datatype 'a completion = Threw | Normal 'a

section \<open>setActivePlayer\<close>

definition REGIONS :: "string list" where
  "REGIONS = [''na'', ''eu'', ''ap'', ''kr'', ''latam'', ''br'']"

definition splitRiotId :: "string \<Rightarrow> (string \<times> string) option" where
  "splitRiotId riotId =
     (let s = trim riotId in
      case indexOf CHR ''#'' s of
        None \<Rightarrow> None
      | Some i \<Rightarrow> Some (take i s, drop (i + 1) s))"

record set_input =
  riotId :: "string option"
  in_name :: "string option"
  in_tag :: "string option"
  in_region :: "string option"

text \<open>
  The replies of \<open>setActivePlayer\<close>:
  \<open>InvalidRiotId\<close> is "Invalid riotId. Expected format name#tag.",
  \<open>ProvideRiotId\<close> is "Please provide a riotId like name#tag, or both name and tag.",
  \<open>ActivePlayerIsNow name tag region\<close> is "Active player is now name#tag (region)."
\<close>

datatype set_reply =
  InvalidRiotId
| ProvideRiotId
| ActivePlayerIsNow string string "string option"

definition setActivePlayer :: "set_input \<Rightarrow> agent \<Rightarrow> set_reply \<times> agent" where
  "setActivePlayer input ag =
     (let region = in_region input;
          parsed =
            (if truthy (riotId input) then
               (case splitRiotId (case riotId input of Some r \<Rightarrow> r | None \<Rightarrow> []) of
                  None \<Rightarrow> None
                | Some (n, t) \<Rightarrow> Some (Some n, Some t))
             else Some (in_name input, in_tag input))
      in case parsed of
           None \<Rightarrow> (InvalidRiotId, ag)
         | Some (nm, tg) \<Rightarrow>
             (case (nm, tg) of
                (Some n, Some t) \<Rightarrow>
                  if n = [] \<or> t = [] then (ProvideRiotId, ag)
                  else (ActivePlayerIsNow n t region,
                        ag\<lparr>activePlayer := Some \<lparr>region = region, name = n, tag = t\<rparr>\<rparr>)
              | _ \<Rightarrow> (ProvideRiotId, ag)))"

section \<open>ingestOrRefreshMatches\<close>

text \<open>
  The inner helper \<open>fetchLatestCompetitive(region)\<close>, issuing the call's request number
  \<open>n\<close>: a non-success status gives \<open>{ ok: false, status, data: [] }\<close>, a success gives
  \<open>{ ok: true, status: 200, data }\<close> with \<open>data = []\<close> when \<open>json.data\<close> is not an array.
\<close>

definition fetchLatestCompetitive :: "upstream \<Rightarrow> nat \<Rightarrow> string \<Rightarrow> fetch_result" where
  "fetchLatestCompetitive up n rg =
     (let res = up n rg in
      if \<not> res_ok res then \<lparr>ok = False, status = res_status res, data = []\<rparr>
      else \<lparr>ok = True, status = 200,
             data = (case json_data res of None \<Rightarrow> [] | Some d \<Rightarrow> d)\<rparr>)"

text \<open>
  The loop \<open>for (const r of REGIONS)\<close> over the candidates left, with the list \<open>reqs\<close> of the
  regions requested so far: it returns the region fixed, if any, and the requests made.
\<close>

fun probe :: "upstream \<Rightarrow> string list \<Rightarrow> string list \<Rightarrow> string option \<times> string list" where
  "probe up reqs [] = (None, reqs)"
| "probe up reqs (r # rs) =
     (let r1 = fetchLatestCompetitive up (length reqs) r in
      if ok r1 \<and> data r1 \<noteq> [] then (Some r, reqs @ [r])
      else probe up (reqs @ [r]) rs)"

text \<open>\<open>meta?.matchid ?? m?.matchid\<close>\<close>

definition matchId_of :: "match_payload \<Rightarrow> string option" where
  "matchId_of m = (case meta_matchid m of Some i \<Rightarrow> Some i | None \<Rightarrow> matchid m)"

text \<open>
  \<open>meta?.game_start_patched ?? (meta?.game_start ? new Date(meta.game_start * 1000).toISOString() : null)\<close>
\<close>

definition started_of :: "iso \<Rightarrow> match_payload \<Rightarrow> string option completion" where
  "started_of toISOString m =
     (case game_start_patched m of
        Some s \<Rightarrow> Normal (Some s)
      | None \<Rightarrow>
          (case game_start m of
             None \<Rightarrow> Normal None
           | Some g \<Rightarrow>
               if g = 0 then Normal None
               else (case toISOString (g * 1000) of
                       None \<Rightarrow> Threw
                     | Some s \<Rightarrow> Normal (Some s))))"

text \<open>The roster lookup \<open>allPlayers.find(...)\<close>, comparing lower-cased name and tag.\<close>

definition find_player :: "active_player \<Rightarrow> player_payload list \<Rightarrow> player_payload option" where
  "find_player active ps =
     List.find (\<lambda>pp. map_option toLowerCase (pp_name pp) = Some (toLowerCase (name active)) \<and>
                     map_option toLowerCase (pp_tag pp) = Some (toLowerCase (tag active))) ps"

text \<open>\<open>SELECT COUNT(1) AS c FROM valorant_matches WHERE id = matchId\<close>\<close>

definition count_matches :: "match_row list \<Rightarrow> string \<Rightarrow> nat" where
  "count_matches t i = length (filter (\<lambda>r. m_id r = i) t)"

text \<open>\<open>INSERT OR REPLACE INTO valorant_player_stats\<close>: the row of the same key goes, the new row is added.\<close>

definition replace_stats :: "stats_row \<Rightarrow> stats_row list \<Rightarrow> stats_row list" where
  "replace_stats row t = filter (\<lambda>r. match_id r \<noteq> match_id row) t @ [row]"

text \<open>\<open>SELECT last_match_id FROM player_cursor WHERE pk = key\<close>, then \<open>cur?.[0]?.last_match_id ?? null\<close>\<close>

definition select_cursor :: "cursor_row list \<Rightarrow> string \<Rightarrow> string option" where
  "select_cursor t key =
     (case filter (\<lambda>c. pk c = key) t of [] \<Rightarrow> None | c # _ \<Rightarrow> last_match_id c)"

text \<open>\<open>INSERT INTO player_cursor ... ON CONFLICT(pk) DO UPDATE SET ...\<close>\<close>

fun upsert_cursor :: "cursor_row \<Rightarrow> cursor_row list \<Rightarrow> cursor_row list" where
  "upsert_cursor c [] = [c]"
| "upsert_cursor c (x # xs) =
     (if pk x = pk c
      then x\<lparr>last_match_id := last_match_id c, last_started_at := last_started_at c\<rparr> # xs
      else x # upsert_cursor c xs)"

text \<open>The projection of one match that is written to \<open>valorant_matches\<close>.\<close>

definition match_row_of ::
  "active_player \<Rightarrow> string \<Rightarrow> string \<Rightarrow> string option \<Rightarrow> match_payload \<Rightarrow> match_row" where
  "match_row_of active rg matchId started m =
     (let p = find_player active (all_players m) in
      \<lparr>m_id = matchId, m_region = rg, m_name = name active, m_tag = tag active,
       started_at = started, m_mode = meta_mode m, m_map = meta_map m,
       player_kills = Option.bind p stats_kills,
       player_deaths = Option.bind p stats_deaths,
       player_assists = Option.bind p stats_assists,
       raw = None\<rparr>)"

text \<open>The projection of one match that is written to \<open>valorant_player_stats\<close>.\<close>

definition stats_row_of :: "active_player \<Rightarrow> string \<Rightarrow> string \<Rightarrow> match_payload \<Rightarrow> stats_row" where
  "stats_row_of active rg matchId m =
     (let p = find_player active (all_players m) in
      \<lparr>match_id = matchId, ps_region = rg, ps_name = name active, ps_tag = tag active,
       character = Option.bind p pp_character,
       ps_rank = Option.bind p currenttier_patched,
       kills = Option.bind p stats_kills,
       deaths = Option.bind p stats_deaths,
       assists = Option.bind p stats_assists,
       bodyshots = Option.bind p stats_bodyshots,
       headshots = Option.bind p stats_headshots,
       legshots = Option.bind p stats_legshots,
       score = Option.bind p stats_score,
       spent_overall = Option.bind p economy_spent_overall,
       spent_avg = Option.bind p economy_spent_average,
       loadout_overall = Option.bind p economy_loadout_value_overall,
       loadout_avg = Option.bind p economy_loadout_value_average,
       damage_made = Option.bind p pp_damage_made,
       damage_received = Option.bind p pp_damage_received\<rparr>)"

text \<open>
  The writes of one loop iteration, for a match that the loop neither skipped nor stopped
  at: the insert into \<open>valorant_matches\<close> when no row has the id (counted in
  \<open>inserted\<close>), then the upsert into \<open>valorant_player_stats\<close>.
\<close>

definition store_match ::
  "active_player \<Rightarrow> string \<Rightarrow> string \<Rightarrow> string option \<Rightarrow> match_payload \<Rightarrow> agent \<times> nat \<Rightarrow> agent \<times> nat" where
  "store_match active rg matchId started m st =
     (let ag = fst st; inserted = snd st;
          st1 = (if count_matches (valorant_matches ag) matchId = 0
                 then (ag\<lparr>valorant_matches :=
                            valorant_matches ag @ [match_row_of active rg matchId started m]\<rparr>,
                       inserted + 1)
                 else (ag, inserted))
      in ((fst st1)\<lparr>valorant_player_stats :=
                       replace_stats (stats_row_of active rg matchId m)
                         (valorant_player_stats (fst st1))\<rparr>,
          snd st1))"

text \<open>
  The loop \<open>for (const m of matches)\<close>. The result is \<open>(completed, agent, inserted)\<close>:
  \<open>completed\<close> is False when \<open>toISOString\<close> threw, with the rows written before the throw
  kept, as SQLite keeps them.
\<close>

fun walk ::
  "iso \<Rightarrow> active_player \<Rightarrow> string \<Rightarrow> string option \<Rightarrow> match_payload list \<Rightarrow> agent \<times> nat
     \<Rightarrow> bool \<times> agent \<times> nat" where
  "walk toISOString active rg lastKnownId [] st = (True, st)"
| "walk toISOString active rg lastKnownId (m # ms) st =
     (if \<not> truthy (matchId_of m) then walk toISOString active rg lastKnownId ms st
      else if truthy lastKnownId \<and> matchId_of m = lastKnownId then (True, st)
      else (case started_of toISOString m of
              Threw \<Rightarrow> (False, st)
            | Normal started \<Rightarrow>
                walk toISOString active rg lastKnownId ms
                  (store_match active rg (case matchId_of m of Some i \<Rightarrow> i | None \<Rightarrow> [])
                     started m st)))"

text \<open>\<open>newestId\<close> and \<open>newestStarted\<close>, read from \<open>matches[0]\<close> before the loop.\<close>

definition newest_of :: "iso \<Rightarrow> match_payload list \<Rightarrow> (string option \<times> string option) completion" where
  "newest_of toISOString matches =
     (case matches of
        [] \<Rightarrow> Normal (None, None)
      | m0 # _ \<Rightarrow>
          (case started_of toISOString m0 of
             Threw \<Rightarrow> Threw
           | Normal s \<Rightarrow> Normal (matchId_of m0, s)))"

text \<open>
  The replies of \<open>ingestOrRefreshMatches\<close>:
  \<open>NoActivePlayer\<close> is "No active player set.",
  \<open>RegionUnresolved\<close> is "Could not resolve region for this Riot ID.",
  \<open>HenrikDevError status\<close> is "HenrikDev error: status",
  \<open>Refreshed name tag region inserted\<close> is
  "Refreshed name#tag (region). New matches stored: inserted.",
  \<open>RangeError\<close> is the exception of \<open>toISOString\<close>, which the tool does not catch.
\<close>

datatype sync_reply =
  NoActivePlayer
| RegionUnresolved
| HenrikDevError nat
| Refreshed string string string nat
| RangeError

text \<open>
  The tool from the cursor read on, the region \<open>rg\<close> being fixed and \<open>reqs\<close> being the
  requests already made.
\<close>

definition ingest_resolved ::
  "iso \<Rightarrow> upstream \<Rightarrow> active_player \<Rightarrow> string \<Rightarrow> string list \<Rightarrow> agent
     \<Rightarrow> sync_reply \<times> agent \<times> string list" where
  "ingest_resolved toISOString up active rg reqs ag =
     (let key = rg @ '':'' @ name active @ '':'' @ tag active;
          lastKnownId = select_cursor (player_cursor ag) key;
          res = fetchLatestCompetitive up (length reqs) rg;
          reqs1 = reqs @ [rg]
      in if \<not> ok res then (HenrikDevError (status res), ag, reqs1)
         else
           (case newest_of toISOString (data res) of
              Threw \<Rightarrow> (RangeError, ag, reqs1)
            | Normal newest \<Rightarrow>
                (case walk toISOString active rg lastKnownId (data res) (ag, 0) of
                   (False, ag2, inserted) \<Rightarrow> (RangeError, ag2, reqs1)
                 | (True, ag2, inserted) \<Rightarrow>
                     (Refreshed (name active) (tag active) rg inserted,
                      (if truthy (fst newest)
                       then ag2\<lparr>player_cursor :=
                                  upsert_cursor
                                    \<lparr>pk = key, last_match_id = fst newest,
                                     last_started_at = snd newest\<rparr>
                                    (player_cursor ag2)\<rparr>
                       else ag2),
                      reqs1))))"

text \<open>
  The tool. The third component of the result is the list of the regions requested
  upstream, in order.
\<close>

definition ingestOrRefreshMatches ::
  "iso \<Rightarrow> upstream \<Rightarrow> agent \<Rightarrow> sync_reply \<times> agent \<times> string list" where
  "ingestOrRefreshMatches toISOString up ag =
     (case activePlayer ag of
        None \<Rightarrow> (NoActivePlayer, ag, [])
      | Some active \<Rightarrow>
          if name active = [] \<or> tag active = [] then (NoActivePlayer, ag, [])
          else if truthy (region active) then
            ingest_resolved toISOString up active
              (case region active of Some r \<Rightarrow> r | None \<Rightarrow> []) [] ag
          else
            (case probe up [] REGIONS of
               (None, reqs) \<Rightarrow> (RegionUnresolved, ag, reqs)
             | (Some rg, reqs) \<Rightarrow>
                 ingest_resolved toISOString up active rg reqs
                   (ag\<lparr>activePlayer := Some (active\<lparr>region := Some rg\<rparr>)\<rparr>)))"

section \<open>The queries\<close>

text \<open>
  \<open>ORDER BY COALESCE(started_at, '') DESC\<close>: strings compare bytewise, as SQLite's BINARY
  collation does. SQLite leaves the order of rows with equal keys open; the model keeps
  them in scan order (a stable insertion sort).
\<close>

definition coalesce_started :: "match_row \<Rightarrow> string" where
  "coalesce_started r = (case started_at r of None \<Rightarrow> [] | Some s \<Rightarrow> s)"

fun insert_desc :: "('a \<Rightarrow> string) \<Rightarrow> 'a \<Rightarrow> 'a list \<Rightarrow> 'a list" where
  "insert_desc key r [] = [r]"
| "insert_desc key r (x # xs) =
     (if key x \<le> key r then r # x # xs else x # insert_desc key r xs)"

definition order_desc :: "('a \<Rightarrow> string) \<Rightarrow> 'a list \<Rightarrow> 'a list" where
  "order_desc key rows = foldr (insert_desc key) rows []"

text \<open>
  JavaScript numbers. The counts of the INTEGER columns are integers, and their sums are
  exact (as they are in doubles below \<open>2^53\<close>). A double is read as the rational it
  denotes. Division, multiplication and addition of doubles round; they are the
  parameters \<open>fdiv\<close>, \<open>fmul\<close>, \<open>fadd\<close> of the model, so that nothing proved depends on
  how they round. \<open>exact_ops\<close> is the instance without rounding.
\<close>

record float_ops =
  fdiv :: "rat \<Rightarrow> rat \<Rightarrow> rat"
  fmul :: "rat \<Rightarrow> rat \<Rightarrow> rat"
  fadd :: "rat \<Rightarrow> rat \<Rightarrow> rat"

definition exact_ops :: float_ops where
  "exact_ops = \<lparr>fdiv = (\<lambda>a b. a / b), fmul = (\<lambda>a b. a * b), fadd = (\<lambda>a b. a + b)\<rparr>"

text \<open>
  \<open>Number(x.toFixed(2))\<close>, read as the decimal that \<open>toFixed\<close> prints: the \<open>n / 100\<close>
  nearest to \<open>x\<close>, the larger \<open>n\<close> of two equally near, the sign set apart; from
  \<open>10^21\<close> on \<open>toFixed\<close> prints the number itself.
\<close>

definition toFixed2 :: "rat \<Rightarrow> rat" where
  "toFixed2 x =
     (if \<bar>x\<bar> \<ge> 10 ^ 21 then x
      else sgn x * (of_int \<lfloor>\<bar>x\<bar> * 100 + 1 / 2\<rfloor> / 100))"

text \<open>The value of a KDR: the string "Infinity" or a number.\<close>

datatype kdr_value = Infinity | Finite rat

text \<open>The two \<open>SELECT player_kills as k, player_deaths as d ... LIMIT lastN\<close> of \<open>queryKDR\<close>.\<close>

definition select_kdr ::
  "agent \<Rightarrow> active_player \<Rightarrow> string option \<Rightarrow> nat \<Rightarrow> (int option \<times> int option) list" where
  "select_kdr ag active mp lastN =
     map (\<lambda>r. (player_kills r, player_deaths r))
       (take lastN (order_desc coalesce_started
          (if truthy mp
           then filter (\<lambda>r. m_name r = name active \<and> m_tag r = tag active \<and> m_map r = mp)
                  (valorant_matches ag)
           else filter (\<lambda>r. m_name r = name active \<and> m_tag r = tag active)
                  (valorant_matches ag))))"

text \<open>
  The replies of \<open>queryKDR\<close>: \<open>KDR_NoActivePlayer\<close> is "No active player set.",
  \<open>KDR_NoStoredMatches\<close> is "No stored matches yet. Try ingesting first.",
  \<open>KDR_Result\<close> is the object \<open>{ matchesConsidered, map, averageKDR }\<close>.
\<close>

record kdr_result =
  matchesConsidered :: nat
  kdr_map :: string
  averageKDR :: kdr_value

datatype kdr_reply = KDR_NoActivePlayer | KDR_NoStoredMatches | KDR_Result kdr_result

definition queryKDR :: "float_ops \<Rightarrow> string option \<Rightarrow> nat \<Rightarrow> agent \<Rightarrow> kdr_reply" where
  "queryKDR fl mp lastN ag =
     (case activePlayer ag of
        None \<Rightarrow> KDR_NoActivePlayer
      | Some active \<Rightarrow>
          if name active = [] \<or> tag active = [] then KDR_NoActivePlayer
          else
            (let rows = select_kdr ag active mp lastN in
             if rows = [] then KDR_NoStoredMatches
             else
               (let ks = map (\<lambda>r. case fst r of Some k \<Rightarrow> k | None \<Rightarrow> 0) rows;
                    ds = map (\<lambda>r. case snd r of Some d \<Rightarrow> d | None \<Rightarrow> 0) rows;
                    sumK = foldl (\<lambda>a b. a + b) 0 ks;
                    sumD = foldl (\<lambda>a b. a + b) 0 ds;
                    kdr = (if sumD = 0 then (if sumK > 0 then Infinity else Finite 0)
                           else Finite (fdiv fl (of_int sumK) (of_int sumD)))
                in KDR_Result
                     \<lparr>matchesConsidered = length rows,
                      kdr_map = (case mp of Some s \<Rightarrow> s | None \<Rightarrow> ''all''),
                      averageKDR =
                        (case kdr of
                           Infinity \<Rightarrow> Infinity
                         | Finite x \<Rightarrow> Finite (toFixed2 x))\<rparr>)))"

text \<open>
  The two joins of \<open>summarizeRecentPerformance\<close>:
  \<open>FROM valorant_player_stats ps JOIN valorant_matches m ON m.id = ps.match_id\<close>.
\<close>

definition select_summary ::
  "agent \<Rightarrow> active_player \<Rightarrow> string option \<Rightarrow> nat \<Rightarrow> stats_row list" where
  "select_summary ag active mp lastN =
     map fst
       (take lastN (order_desc (\<lambda>j. coalesce_started (snd j))
          (if truthy mp
           then filter (\<lambda>j. ps_name (fst j) = name active \<and> ps_tag (fst j) = tag active \<and>
                            m_map (snd j) = mp)
                  [(ps, m). ps \<leftarrow> valorant_player_stats ag, m \<leftarrow> valorant_matches ag,
                            m_id m = match_id ps]
           else filter (\<lambda>j. ps_name (fst j) = name active \<and> ps_tag (fst j) = tag active)
                  [(ps, m). ps \<leftarrow> valorant_player_stats ag, m \<leftarrow> valorant_matches ag,
                            m_id m = match_id ps])))"

text \<open>\<open>sum\<close> of the tool, over an INTEGER column and over a REAL column.\<close>

definition sum_int :: "int option list \<Rightarrow> int" where
  "sum_int arr = foldl (\<lambda>a b. a + (case b of None \<Rightarrow> 0 | Some v \<Rightarrow> v)) 0 arr"

definition sum_real :: "float_ops \<Rightarrow> rat option list \<Rightarrow> rat" where
  "sum_real fl arr = foldl (\<lambda>a b. fadd fl a (case b of None \<Rightarrow> 0 | Some v \<Rightarrow> v)) 0 arr"

text \<open>\<open>avg\<close> of the tool: \<open>Number((n > 0 ? x / n : 0).toFixed(2))\<close>.\<close>

definition avg :: "float_ops \<Rightarrow> nat \<Rightarrow> rat \<Rightarrow> rat" where
  "avg fl n x = toFixed2 (if n > 0 then fdiv fl x (of_nat n) else 0)"

record averages =
  avg_kills :: rat
  avg_deaths :: rat
  avg_assists :: rat
  avg_kdr :: kdr_value
  avg_score :: rat
  damageMade :: rat
  damageReceived :: rat
  headshotRatePct :: rat
  spentOverall :: rat
  spentAvgPerRound :: rat
  loadoutOverall :: rat
  loadoutAvgPerRound :: rat

record summary_result =
  sum_matchesConsidered :: nat
  sum_map :: string
  sum_averages :: averages

datatype summary_reply = Sum_NoActivePlayer | Sum_NoStoredMatches | Sum_Result summary_result

definition summarizeRecentPerformance ::
  "float_ops \<Rightarrow> string option \<Rightarrow> nat \<Rightarrow> agent \<Rightarrow> summary_reply" where
  "summarizeRecentPerformance fl mp lastN ag =
     (case activePlayer ag of
        None \<Rightarrow> Sum_NoActivePlayer
      | Some active \<Rightarrow>
          if name active = [] \<or> tag active = [] then Sum_NoActivePlayer
          else
            (let rows = select_summary ag active mp lastN in
             if rows = [] then Sum_NoStoredMatches
             else
               (let n = length rows;
                    k = sum_int (map kills rows);
                    d = sum_int (map deaths rows);
                    a = sum_int (map assists rows);
                    hs = sum_int (map headshots rows);
                    bs = sum_int (map bodyshots rows);
                    ls = sum_int (map legshots rows);
                    sc = sum_int (map score rows);
                    dm = sum_int (map damage_made rows);
                    dr = sum_int (map damage_received rows);
                    shotsTotal = hs + bs + ls;
                    hsRate = (if shotsTotal > 0
                              then toFixed2 (fmul fl (fdiv fl (of_int hs) (of_int shotsTotal)) 100)
                              else 0);
                    avgSpentOverall = avg fl n (of_int (sum_int (map spent_overall rows)));
                    avgSpent = toFixed2 (if n > 0
                                 then fdiv fl (sum_real fl (map spent_avg rows)) (of_nat n)
                                 else 0);
                    avgLoadoutOverall = avg fl n (of_int (sum_int (map loadout_overall rows)));
                    avgLoadout = toFixed2 (if n > 0
                                   then fdiv fl (sum_real fl (map loadout_avg rows)) (of_nat n)
                                   else 0);
                    kdr = (if d = 0 then (if k > 0 then Infinity else Finite 0)
                           else Finite (toFixed2 (fdiv fl (of_int k) (of_int d))))
                in Sum_Result
                     \<lparr>sum_matchesConsidered = n,
                      sum_map = (case mp of Some s \<Rightarrow> s | None \<Rightarrow> ''all''),
                      sum_averages =
                        \<lparr>avg_kills = avg fl n (of_int k),
                         avg_deaths = avg fl n (of_int d),
                         avg_assists = avg fl n (of_int a),
                         avg_kdr = kdr,
                         avg_score = avg fl n (of_int sc),
                         damageMade = avg fl n (of_int dm),
                         damageReceived = avg fl n (of_int dr),
                         headshotRatePct = hsRate,
                         spentOverall = avgSpentOverall,
                         spentAvgPerRound = avgSpent,
                         loadoutOverall = avgLoadoutOverall,
                         loadoutAvgPerRound = avgLoadout\<rparr>\<rparr>)))"

text \<open>
  \<open>listRecentMatches\<close>: a line "i. started_at - mode - map - id=id" of the listing is the
  tuple of what it prints, \<open>(i, started_at ?? "unknown", mode ?? "mode", map ?? "map", id)\<close>.
\<close>

datatype list_reply =
  List_NoActivePlayer
| List_NoStoredMatches
| List_Lines "(nat \<times> string \<times> string \<times> string \<times> string) list"

definition select_recent :: "agent \<Rightarrow> active_player \<Rightarrow> nat \<Rightarrow> match_row list" where
  "select_recent ag active limit =
     take limit (order_desc coalesce_started
       (filter (\<lambda>r. m_name r = name active \<and> m_tag r = tag active) (valorant_matches ag)))"

definition listRecentMatches :: "nat \<Rightarrow> agent \<Rightarrow> list_reply" where
  "listRecentMatches limit ag =
     (case activePlayer ag of
        None \<Rightarrow> List_NoActivePlayer
      | Some active \<Rightarrow>
          if name active = [] \<or> tag active = [] then List_NoActivePlayer
          else
            (let rows = select_recent ag active limit in
             if rows = [] then List_NoStoredMatches
             else List_Lines
                    (map (\<lambda>(i, r). (i + 1,
                                    (case started_at r of Some s \<Rightarrow> s | None \<Rightarrow> ''unknown''),
                                    (case m_mode r of Some s \<Rightarrow> s | None \<Rightarrow> ''mode''),
                                    (case m_map r of Some s \<Rightarrow> s | None \<Rightarrow> ''map''),
                                    m_id r))
                       (zip [0 ..< length rows] rows))))"

section \<open>Auxiliary definitions for the proofs\<close>

text \<open>
  The ids of the matches that the loop of \<open>walk\<close> stores, in order: it follows the
  control flow of \<open>walk\<close> (skip, stop, throw) and leaves the writes out.
\<close>

fun walked :: "iso \<Rightarrow> string option \<Rightarrow> match_payload list \<Rightarrow> string list" where
  "walked toISOString lastKnownId [] = []"
| "walked toISOString lastKnownId (m # ms) =
     (if \<not> truthy (matchId_of m) then walked toISOString lastKnownId ms
      else if truthy lastKnownId \<and> matchId_of m = lastKnownId then []
      else (case started_of toISOString m of
              Threw \<Rightarrow> []
            | Normal started \<Rightarrow>
                (case matchId_of m of Some i \<Rightarrow> i | None \<Rightarrow> []) # walked toISOString lastKnownId ms))"

text \<open>The number of new matches that a reply of \<open>ingestOrRefreshMatches\<close> reports as stored.\<close>

fun new_matches_stored :: "sync_reply \<Rightarrow> nat" where
  "new_matches_stored (Refreshed nm tg rg inserted) = inserted"
| "new_matches_stored _ = 0"

text \<open>
  A response with which a region probe succeeds: a success status whose \<open>json.data\<close> is a
  non-empty array.
\<close>

definition returns_data :: "http_response \<Rightarrow> bool" where
  "returns_data res =
     (res_ok res \<and> (case json_data res of None \<Rightarrow> False | Some d \<Rightarrow> d \<noteq> []))"

text \<open>The match ids that occur in some page the upstream serves.\<close>

definition served_ids :: "upstream \<Rightarrow> string set" where
  "served_ids up =
     {i. \<exists>n rg page m. json_data (up n rg) = Some page \<and> m \<in> set page \<and> matchId_of m = Some i}"

section \<open>Example data\<close>

definition empty_agent :: agent where
  "empty_agent =
     \<lparr>activePlayer = None, valorant_matches = [], valorant_player_stats = [], player_cursor = []\<rparr>"

definition alice :: active_player where
  "alice = \<lparr>region = Some ''na'', name = ''alice'', tag = ''1''\<rparr>"

text \<open>A roster entry with kills, deaths, headshots, bodyshots and legshots.\<close>

definition roster_entry ::
  "string \<Rightarrow> string \<Rightarrow> int \<Rightarrow> int \<Rightarrow> int \<Rightarrow> int \<Rightarrow> int \<Rightarrow> player_payload" where
  "roster_entry nm tg k d hs bs ls =
     \<lparr>pp_name = Some nm, pp_tag = Some tg, pp_character = None, currenttier_patched = None,
      stats_kills = Some k, stats_deaths = Some d, stats_assists = None, stats_score = None,
      stats_bodyshots = Some bs, stats_headshots = Some hs, stats_legshots = Some ls,
      economy_spent_overall = None, economy_spent_average = None,
      economy_loadout_value_overall = None, economy_loadout_value_average = None,
      pp_damage_made = None, pp_damage_received = None\<rparr>"

text \<open>A match with id \<open>i\<close>, started at the time written \<open>i\<close>, and a roster.\<close>

definition game :: "string \<Rightarrow> player_payload list \<Rightarrow> match_payload" where
  "game i ps =
     \<lparr>meta_matchid = Some i, matchid = None, game_start_patched = Some i, game_start = None,
      meta_map = Some ''Ascent'', meta_mode = Some ''Competitive'', all_players = ps\<rparr>"

text \<open>An upstream that answers every request with the page, one that answers with a status.\<close>

definition serving :: "match_payload list \<Rightarrow> upstream" where
  "serving page = (\<lambda>n r. \<lparr>res_ok = True, res_status = 200, json_data = Some page\<rparr>)"

definition failing :: "nat \<Rightarrow> upstream" where
  "failing st = (\<lambda>n r. \<lparr>res_ok = False, res_status = st, json_data = None\<rparr>)"

definition no_iso :: iso where
  "no_iso = (\<lambda>ms. None)"

text \<open>The page \<open>[M8, M7, M6, M5, M4]\<close> of alice, and alice with her cursor at \<open>M5\<close>.\<close>

definition page5 :: "match_payload list" where
  "page5 =
     map (\<lambda>i. game i [roster_entry ''Alice'' ''1'' 10 5 1 3 0]) [''M8'', ''M7'', ''M6'', ''M5'', ''M4'']"

definition alice_at_M5 :: agent where
  "alice_at_M5 =
     \<lparr>activePlayer = Some alice, valorant_matches = [], valorant_player_stats = [],
      player_cursor =
        [\<lparr>pk = ''na:alice:1'', last_match_id = Some ''M5'', last_started_at = Some ''M5''\<rparr>]\<rparr>"

text \<open>
  A scenario of two players of region \<open>na\<close> who played \<open>M5\<close> and \<open>M8\<close> together; every
  match lists both in its roster. Alice is set active and synced on the page \<open>[M5, M4]\<close>
  (\<open>alice_synced\<close>); then bob is set active (\<open>bob_active\<close>) and synced on \<open>[M8, M5]\<close>
  (\<open>bob_synced\<close>); then alice is set active again (\<open>alice_again\<close>).
\<close>

definition shared :: "string \<Rightarrow> match_payload" where
  "shared i = game i [roster_entry ''Alice'' ''1'' 10 5 1 3 0, roster_entry ''Bob'' ''2'' 7 7 2 2 2]"

definition alice_input :: set_input where
  "alice_input = \<lparr>riotId = Some ''alice#1'', in_name = None, in_tag = None, in_region = Some ''na''\<rparr>"

definition bob_input :: set_input where
  "bob_input = \<lparr>riotId = None, in_name = Some ''bob'', in_tag = Some ''2'', in_region = Some ''na''\<rparr>"

definition bob :: active_player where
  "bob = \<lparr>region = Some ''na'', name = ''bob'', tag = ''2''\<rparr>"

definition activate :: "set_input \<Rightarrow> agent \<Rightarrow> agent" where
  "activate inp ag = snd (setActivePlayer inp ag)"

definition sync :: "match_payload list \<Rightarrow> agent \<Rightarrow> agent" where
  "sync page ag = fst (snd (ingestOrRefreshMatches no_iso (serving page) ag))"

definition alice_synced :: agent where
  "alice_synced = sync [shared ''M5'', shared ''M4''] (activate alice_input empty_agent)"

definition bob_active :: agent where
  "bob_active = activate bob_input alice_synced"

definition bob_synced :: agent where
  "bob_synced = sync [shared ''M8'', shared ''M5''] bob_active"

definition alice_again :: agent where
  "alice_again = activate alice_input bob_synced"

text \<open>
  The scenario of the spec: \<open>ollie#chaos\<close> is active with no region, and only \<open>eu\<close> has
  matches (\<open>only_eu\<close>); in \<open>eu_then_429\<close> the probe of \<open>eu\<close> (request 1) returns the
  matches and every other request gets status 429.
\<close>

definition ollie :: agent where
  "ollie = empty_agent\<lparr>activePlayer := Some \<lparr>region = None, name = ''ollie'', tag = ''chaos''\<rparr>\<rparr>"

definition only_eu :: upstream where
  "only_eu = (\<lambda>n r. \<lparr>res_ok = True, res_status = 200,
                       json_data = Some (if r = ''eu'' then [shared ''M1''] else [])\<rparr>)"

definition eu_then_429 :: upstream where
  "eu_then_429 =
     (\<lambda>n r. if n = 1 \<and> r = ''eu''
            then \<lparr>res_ok = True, res_status = 200, json_data = Some [shared ''M1'']\<rparr>
            else \<lparr>res_ok = False, res_status = 429, json_data = None\<rparr>)"

text \<open>The same player as \<open>alice_input\<close>, written with a capital letter.\<close>

definition Alice_input :: set_input where
  "Alice_input = \<lparr>riotId = Some ''Alice#1'', in_name = None, in_tag = None, in_region = Some ''na''\<rparr>"

text \<open>
  Alice synced on one match: \<open>ghost\<close>, whose roster does not list her; \<open>flawless\<close>, with 10
  kills and no death; \<open>uneven\<close>, with 10 kills and 3 deaths.
\<close>

definition ghost :: agent where
  "ghost = sync [game ''G1'' [roster_entry ''Bob'' ''2'' 7 7 2 2 2]] (activate alice_input empty_agent)"

definition flawless :: agent where
  "flawless =
     sync [game ''F1'' [roster_entry ''Alice'' ''1'' 10 0 1 3 0]] (activate alice_input empty_agent)"

definition uneven :: agent where
  "uneven =
     sync [game ''U1'' [roster_entry ''Alice'' ''1'' 10 3 1 1 1]] (activate alice_input empty_agent)"

text \<open>
  Alice set active again from \<open>bob_synced\<close> with no region given: her cursor \<open>na:alice:1\<close>
  is stored, the region of the active player is absent.
\<close>

definition alice_unplaced :: active_player where
  "alice_unplaced = \<lparr>region = None, name = ''alice'', tag = ''1''\<rparr>"

definition alice_regionless :: agent where
  "alice_regionless =
     activate \<lparr>riotId = Some ''alice#1'', in_name = None, in_tag = None, in_region = None\<rparr> bob_synced"

section \<open>Properties\<close>

lemma indexOf_None: "indexOf c s = None \<longleftrightarrow> c \<notin> set s"
  by (induction s) auto

subsection \<open>setActivePlayer\<close>

lemma set_trim: "set (trim s) \<subseteq> set s"
  by (auto simp: trim_def dest!: set_dropWhileD)

lemma splitRiotId_None: "CHR ''#'' \<notin> set s \<Longrightarrow> splitRiotId s = None"
  using set_trim [of s] by (auto simp: splitRiotId_def Let_def indexOf_None split: option.splits)

text \<open>
  C9: every input that \<open>setActivePlayer\<close> rejects (a riotId without \<open>#\<close>; an empty name
  or tag after splitting; no riotId and not both name and tag) gets an error reply and
  leaves the agent as it was, so the previously active player stays active; and whenever
  the reply is one of the two error messages, the agent is unchanged.
\<close>

theorem setActivePlayer_rejected_unchanged:
  "(riotId input = Some s \<and> s \<noteq> [] \<and> CHR ''#'' \<notin> set s
      \<longrightarrow> setActivePlayer input ag = (InvalidRiotId, ag)) \<and>
   (riotId input = Some s \<and> s \<noteq> [] \<and> splitRiotId s = Some (n, t) \<and> (n = [] \<or> t = [])
      \<longrightarrow> setActivePlayer input ag = (ProvideRiotId, ag)) \<and>
   (\<not> truthy (riotId input) \<and> (\<not> truthy (in_name input) \<or> \<not> truthy (in_tag input))
      \<longrightarrow> setActivePlayer input ag = (ProvideRiotId, ag)) \<and>
   (fst (setActivePlayer input ag) \<in> {InvalidRiotId, ProvideRiotId}
      \<longrightarrow> snd (setActivePlayer input ag) = ag)"
proof (intro conjI impI)
  assume "riotId input = Some s \<and> s \<noteq> [] \<and> CHR ''#'' \<notin> set s"
  then show "setActivePlayer input ag = (InvalidRiotId, ag)"
    by (simp add: setActivePlayer_def splitRiotId_None)
next
  assume "riotId input = Some s \<and> s \<noteq> [] \<and> splitRiotId s = Some (n, t) \<and> (n = [] \<or> t = [])"
  then show "setActivePlayer input ag = (ProvideRiotId, ag)"
    by (auto simp: setActivePlayer_def)
next
  assume "\<not> truthy (riotId input) \<and> (\<not> truthy (in_name input) \<or> \<not> truthy (in_tag input))"
  then show "setActivePlayer input ag = (ProvideRiotId, ag)"
    by (cases "in_name input"; cases "in_tag input") (auto simp: setActivePlayer_def)
next
  assume "fst (setActivePlayer input ag) \<in> {InvalidRiotId, ProvideRiotId}"
  then show "snd (setActivePlayer input ag) = ag"
    by (auto simp: setActivePlayer_def Let_def split: option.splits if_splits prod.splits)
qed


theorem setActivePlayer_rejected_unchanged_witness:
  "setActivePlayer \<lparr>riotId = Some ''olliechaos'', in_name = None, in_tag = None, in_region = None\<rparr>
     (empty_agent\<lparr>activePlayer := Some alice\<rparr>) = (InvalidRiotId, empty_agent\<lparr>activePlayer := Some alice\<rparr>) \<and>
   setActivePlayer \<lparr>riotId = Some ''ollie#'', in_name = None, in_tag = None, in_region = None\<rparr>
     (empty_agent\<lparr>activePlayer := Some alice\<rparr>) = (ProvideRiotId, empty_agent\<lparr>activePlayer := Some alice\<rparr>) \<and>
   setActivePlayer \<lparr>riotId = None, in_name = Some ''ollie'', in_tag = None, in_region = None\<rparr>
     (empty_agent\<lparr>activePlayer := Some alice\<rparr>) = (ProvideRiotId, empty_agent\<lparr>activePlayer := Some alice\<rparr>) \<and>
   activePlayer (snd (setActivePlayer \<lparr>riotId = Some ''#chaos'', in_name = None, in_tag = None, in_region = None\<rparr>
     (empty_agent\<lparr>activePlayer := Some alice\<rparr>))) = Some alice"
proof -
  let ?ag = "empty_agent\<lparr>activePlayer := Some alice\<rparr>"
  note R = setActivePlayer_rejected_unchanged
  have s1: "splitRiotId ''ollie#'' = Some (''ollie'', [])"
    by (simp add: splitRiotId_def trim_def is_space_def)
  have s2: "fst (setActivePlayer \<lparr>riotId = Some ''#chaos'', in_name = None, in_tag = None, in_region = None\<rparr> ?ag) \<in> {InvalidRiotId, ProvideRiotId}"
    by (simp add: setActivePlayer_def splitRiotId_def trim_def is_space_def)
  have a: "setActivePlayer \<lparr>riotId = Some ''olliechaos'', in_name = None, in_tag = None, in_region = None\<rparr> ?ag = (InvalidRiotId, ?ag)"
    by (rule R [THEN conjunct1, rule_format, where s = "''olliechaos''"]) simp
  have b: "setActivePlayer \<lparr>riotId = Some ''ollie#'', in_name = None, in_tag = None, in_region = None\<rparr> ?ag = (ProvideRiotId, ?ag)"
    by (rule R [THEN conjunct2, THEN conjunct1, rule_format, where s = "''ollie#''" and n = "''ollie''" and t = "[]"]) (simp add: s1)
  have c: "setActivePlayer \<lparr>riotId = None, in_name = Some ''ollie'', in_tag = None, in_region = None\<rparr> ?ag = (ProvideRiotId, ?ag)"
    by (rule R [THEN conjunct2, THEN conjunct2, THEN conjunct1, rule_format]) simp
  have d: "snd (setActivePlayer \<lparr>riotId = Some ''#chaos'', in_name = None, in_tag = None, in_region = None\<rparr> ?ag) = ?ag"
    by (rule R [THEN conjunct2, THEN conjunct2, THEN conjunct2, rule_format]) (rule s2)
  show ?thesis using a b c d by (simp add: alice_def)
qed


subsection \<open>The loop of ingestOrRefreshMatches\<close>

lemma count_matches_0: "count_matches t i = 0 \<longleftrightarrow> i \<notin> m_id ` set t"
  by (auto simp: count_matches_def filter_empty_conv)

lemma store_match_matches:
  "valorant_matches (fst (store_match a rg i s m st)) =
     (if i \<in> m_id ` set (valorant_matches (fst st)) then valorant_matches (fst st)
      else valorant_matches (fst st) @ [match_row_of a rg i s m])"
  by (simp add: store_match_def Let_def count_matches_0)

lemma store_match_inserted:
  "snd (store_match a rg i s m st) =
     (if i \<in> m_id ` set (valorant_matches (fst st)) then snd st else snd st + 1)"
  by (simp add: store_match_def Let_def count_matches_0)

lemma store_match_stats:
  "valorant_player_stats (fst (store_match a rg i s m st)) =
     replace_stats (stats_row_of a rg i m) (valorant_player_stats (fst st))"
  by (simp add: store_match_def Let_def)

lemma store_match_cursor:
  "player_cursor (fst (store_match a rg i s m st)) = player_cursor (fst st)"
  by (simp add: store_match_def Let_def)

lemma store_match_active:
  "activePlayer (fst (store_match a rg i s m st)) = activePlayer (fst st)"
  by (simp add: store_match_def Let_def)

lemma m_id_match_row_of: "m_id (match_row_of a rg i s m) = i"
  and m_name_match_row_of: "m_name (match_row_of a rg i s m) = name a"
  and m_tag_match_row_of: "m_tag (match_row_of a rg i s m) = tag a"
  and m_region_match_row_of: "m_region (match_row_of a rg i s m) = rg"
  by (simp_all add: match_row_of_def Let_def)

lemma walk_cursor: "player_cursor (fst (snd (walk toISO a rg lk ms st))) = player_cursor (fst st)"
  by (induction ms arbitrary: st) (auto simp: store_match_cursor split: completion.splits)

lemma walk_active: "activePlayer (fst (snd (walk toISO a rg lk ms st))) = activePlayer (fst st)"
  by (induction ms arbitrary: st) (auto simp: store_match_active split: completion.splits)

lemma walk_completed: "fst (walk toISO a rg lk ms st) = fst (walk toISO a rg lk ms st')"
  by (induction ms arbitrary: st st') (auto split: completion.splits)

lemma walk_matches:
  "\<exists>new. valorant_matches (fst (snd (walk toISO a rg lk ms st))) = valorant_matches (fst st) @ new \<and>
         snd (snd (walk toISO a rg lk ms st)) = snd st + length new \<and>
         distinct (map m_id new) \<and>
         set (map m_id new) = set (walked toISO lk ms) - m_id ` set (valorant_matches (fst st)) \<and>
         (\<forall>r\<in>set new. m_name r = name a \<and> m_tag r = tag a \<and> m_region r = rg)"
proof (induction ms arbitrary: st)
  case Nil
  show ?case by simp
next
  case (Cons m ms)
  show ?case
  proof (cases "\<not> truthy (matchId_of m)")
    case True
    then show ?thesis using Cons.IH [of st] by simp
  next
    case id: False
    show ?thesis
    proof (cases "truthy lk \<and> matchId_of m = lk")
      case True
      then show ?thesis using id by simp
    next
      case nostop: False
      show ?thesis
      proof (cases "started_of toISO m")
        case Threw
        then show ?thesis using id nostop by simp
      next
        case (Normal s)
        obtain i where i: "matchId_of m = Some i" using id by (cases "matchId_of m") auto
        let ?st = "store_match a rg i s m st"
        from Cons.IH [of ?st] obtain new where
          n1: "valorant_matches (fst (snd (walk toISO a rg lk ms ?st))) = valorant_matches (fst ?st) @ new"
          and n2: "snd (snd (walk toISO a rg lk ms ?st)) = snd ?st + length new"
          and n3: "distinct (map m_id new)"
          and n4: "set (map m_id new) = set (walked toISO lk ms) - m_id ` set (valorant_matches (fst ?st))"
          and n5: "\<forall>r\<in>set new. m_name r = name a \<and> m_tag r = tag a \<and> m_region r = rg"
          by blast
        have w: "walk toISO a rg lk (m # ms) st = walk toISO a rg lk ms ?st"
          using id nostop Normal i by auto
        have wd: "walked toISO lk (m # ms) = i # walked toISO lk ms"
          using id nostop Normal i by auto
        show ?thesis
        proof (cases "i \<in> m_id ` set (valorant_matches (fst st))")
          case True
          then show ?thesis using n1 n2 n3 n4 n5 unfolding w wd
            by (intro exI [of _ new]) (auto simp: store_match_matches store_match_inserted)
        next
          case False
          let ?row = "match_row_of a rg i s m"
          have "i \<notin> set (map m_id new)"
            using n4 False by (simp add: store_match_matches m_id_match_row_of)
          then show ?thesis using n1 n2 n3 n4 n5 False unfolding w wd
            by (intro exI [of _ "?row # new"])
              (auto simp: store_match_matches store_match_inserted m_id_match_row_of
                 m_name_match_row_of m_tag_match_row_of m_region_match_row_of)
        qed
      qed
    qed
  qed
qed


lemma select_upsert_cursor:
  "select_cursor (upsert_cursor c t) (pk c) = last_match_id c"
  by (induction t) (auto simp: select_cursor_def)

lemma upsert_cursor_idem: "upsert_cursor c (upsert_cursor c t) = upsert_cursor c t"
  by (induction t) auto

lemma walk_walked_stored:
  "set (walked toISO lk ms) \<subseteq> m_id ` set (valorant_matches (fst (snd (walk toISO a rg lk ms st))))"
proof -
  obtain new where n:
    "valorant_matches (fst (snd (walk toISO a rg lk ms st))) = valorant_matches (fst st) @ new \<and>
     snd (snd (walk toISO a rg lk ms st)) = snd st + length new \<and>
     distinct (map m_id new) \<and>
     set (map m_id new) = set (walked toISO lk ms) - m_id ` set (valorant_matches (fst st)) \<and>
     (\<forall>r\<in>set new. m_name r = name a \<and> m_tag r = tag a \<and> m_region r = rg)"
    using walk_matches [of toISO a rg lk ms st] ..
  have "set (walked toISO lk ms) \<subseteq> m_id ` set (valorant_matches (fst st)) \<union> set (map m_id new)"
    using n by simp
  then show ?thesis using n by (simp add: image_Un)
qed

lemma walk_known:
  assumes "set (walked toISO lk ms) \<subseteq> m_id ` set (valorant_matches (fst st))"
  shows "valorant_matches (fst (snd (walk toISO a rg lk ms st))) = valorant_matches (fst st)"
    and "snd (snd (walk toISO a rg lk ms st)) = snd st"
proof -
  obtain new where n:
    "valorant_matches (fst (snd (walk toISO a rg lk ms st))) = valorant_matches (fst st) @ new \<and>
     snd (snd (walk toISO a rg lk ms st)) = snd st + length new \<and>
     distinct (map m_id new) \<and>
     set (map m_id new) = set (walked toISO lk ms) - m_id ` set (valorant_matches (fst st)) \<and>
     (\<forall>r\<in>set new. m_name r = name a \<and> m_tag r = tag a \<and> m_region r = rg)"
    using walk_matches [of toISO a rg lk ms st] ..
  have "set (walked toISO lk ms) - m_id ` set (valorant_matches (fst st)) = {}"
    using assms by (simp only: Diff_eq_empty_iff)
  then have "set (map m_id new) = {}" using n by simp
  then have "new = []" by simp
  with n show "valorant_matches (fst (snd (walk toISO a rg lk ms st))) = valorant_matches (fst st)"
    and "snd (snd (walk toISO a rg lk ms st)) = snd st" by simp_all
qed

text \<open>Walking the same page again from the state the first walk left.\<close>

lemma walk_again:
  assumes "walk toISO a rg lk ms st = (b, ag1, n1)"
    and "valorant_matches ag1' = valorant_matches ag1"
  shows "\<exists>ag2. walk toISO a rg lk ms (ag1', n2) = (b, ag2, n2) \<and>
           valorant_matches ag2 = valorant_matches ag1' \<and>
           player_cursor ag2 = player_cursor ag1'"
proof -
  obtain b' ag2 n' where w: "walk toISO a rg lk ms (ag1', n2) = (b', ag2, n')"
    by (cases "walk toISO a rg lk ms (ag1', n2)") auto
  have b: "b' = b"
    using walk_completed [of toISO a rg lk ms st "(ag1', n2)"] assms(1) w by simp
  have c: "player_cursor ag2 = player_cursor ag1'"
    using walk_cursor [of toISO a rg lk ms "(ag1', n2)"] w by simp
  have sub: "set (walked toISO lk ms) \<subseteq> m_id ` set (valorant_matches (fst (ag1', n2)))"
    using walk_walked_stored [of toISO lk ms a rg st] assms by simp
  have "valorant_matches ag2 = valorant_matches ag1'" "n' = n2"
    using walk_known [OF sub, of a rg] w by simp_all
  then show ?thesis using w b c by simp
qed

lemma ingest_resolved_error:
  assumes "\<not> ok (fetchLatestCompetitive up (length reqs) rg)"
  shows "ingest_resolved toISO up a rg reqs ag =
           (HenrikDevError (status (fetchLatestCompetitive up (length reqs) rg)), ag, reqs @ [rg])"
  using assms by (simp add: ingest_resolved_def Let_def)

lemma ingest_resolved_threw:
  assumes "ok (fetchLatestCompetitive up (length reqs) rg)"
    and "newest_of toISO (data (fetchLatestCompetitive up (length reqs) rg)) = Threw"
  shows "ingest_resolved toISO up a rg reqs ag = (RangeError, ag, reqs @ [rg])"
  using assms by (simp add: ingest_resolved_def Let_def)

lemma ingest_resolved_walk:
  assumes "ok (fetchLatestCompetitive up (length reqs) rg)"
    and "newest_of toISO (data (fetchLatestCompetitive up (length reqs) rg)) = Normal newest"
    and "walk toISO a rg (select_cursor (player_cursor ag) (rg @ '':'' @ name a @ '':'' @ tag a))
           (data (fetchLatestCompetitive up (length reqs) rg)) (ag, 0) = (b, ag1, n1)"
  shows "ingest_resolved toISO up a rg reqs ag =
           (if b then
              (Refreshed (name a) (tag a) rg n1,
               (if truthy (fst newest)
                then ag1\<lparr>player_cursor :=
                           upsert_cursor
                             \<lparr>pk = rg @ '':'' @ name a @ '':'' @ tag a,
                              last_match_id = fst newest, last_started_at = snd newest\<rparr>
                             (player_cursor ag1)\<rparr>
                else ag1),
               reqs @ [rg])
            else (RangeError, ag1, reqs @ [rg]))"
proof (cases b)
  case True
  then show ?thesis using assms by (simp add: ingest_resolved_def Let_def)
next
  case False
  then show ?thesis using assms by (simp add: ingest_resolved_def Let_def)
qed

lemma ingest_resolved_active:
  "activePlayer (fst (snd (ingest_resolved toISO up a rg reqs ag))) = activePlayer ag"
proof (cases "ok (fetchLatestCompetitive up (length reqs) rg)")
  case False
  then show ?thesis by (simp add: ingest_resolved_error)
next
  case okres: True
  show ?thesis
  proof (cases "newest_of toISO (data (fetchLatestCompetitive up (length reqs) rg))")
    case Threw
    then show ?thesis using okres by (simp add: ingest_resolved_threw)
  next
    case (Normal newest)
    let ?lk = "select_cursor (player_cursor ag) (rg @ '':'' @ name a @ '':'' @ tag a)"
    let ?page = "data (fetchLatestCompetitive up (length reqs) rg)"
    obtain b ag1 n1 where w: "walk toISO a rg ?lk ?page (ag, 0) = (b, ag1, n1)"
      by (cases "walk toISO a rg ?lk ?page (ag, 0)") auto
    have "activePlayer ag1 = activePlayer ag"
      using walk_active [of toISO a rg ?lk ?page "(ag, 0)"] w by simp
    then show ?thesis
      by (simp add: ingest_resolved_walk [OF okres Normal w])
  qed
qed

lemma ingest_resolved_twice:
  assumes same: "up2 (length reqs2) rg = up1 (length reqs1) rg"
  shows "valorant_matches (fst (snd (ingest_resolved toISO up2 a rg reqs2
             (fst (snd (ingest_resolved toISO up1 a rg reqs1 ag)))))) =
         valorant_matches (fst (snd (ingest_resolved toISO up1 a rg reqs1 ag))) \<and>
         player_cursor (fst (snd (ingest_resolved toISO up2 a rg reqs2
             (fst (snd (ingest_resolved toISO up1 a rg reqs1 ag)))))) =
         player_cursor (fst (snd (ingest_resolved toISO up1 a rg reqs1 ag))) \<and>
         new_matches_stored (fst (ingest_resolved toISO up2 a rg reqs2
             (fst (snd (ingest_resolved toISO up1 a rg reqs1 ag))))) = 0"
proof -
  define key where "key = rg @ '':'' @ name a @ '':'' @ tag a"
  define res where "res = fetchLatestCompetitive up1 (length reqs1) rg"
  have res2: "fetchLatestCompetitive up2 (length reqs2) rg = res"
    by (simp add: res_def fetchLatestCompetitive_def same)
  define lk where "lk = select_cursor (player_cursor ag) key"
  show ?thesis
  proof (cases "ok res")
    case False
    have 1: "ingest_resolved toISO up1 a rg reqs1 ag = (HenrikDevError (status res), ag, reqs1 @ [rg])"
      using False ingest_resolved_error [of up1 reqs1 rg toISO a ag] by (simp add: res_def)
    have 2: "ingest_resolved toISO up2 a rg reqs2 ag = (HenrikDevError (status res), ag, reqs2 @ [rg])"
      using False ingest_resolved_error [of up2 reqs2 rg toISO a ag] by (simp add: res2)
    show ?thesis by (simp add: 1 2)
  next
    case okres: True
    have ok1: "ok (fetchLatestCompetitive up1 (length reqs1) rg)" using okres by (simp add: res_def)
    have ok2: "ok (fetchLatestCompetitive up2 (length reqs2) rg)" using okres by (simp add: res2)
    show ?thesis
    proof (cases "newest_of toISO (data res)")
      case Threw
      have 1: "ingest_resolved toISO up1 a rg reqs1 ag = (RangeError, ag, reqs1 @ [rg])"
        using Threw ingest_resolved_threw [OF ok1, of toISO a ag] by (simp add: res_def)
      have 2: "ingest_resolved toISO up2 a rg reqs2 ag = (RangeError, ag, reqs2 @ [rg])"
        using Threw ingest_resolved_threw [OF ok2, of toISO a ag] by (simp add: res2)
      show ?thesis by (simp add: 1 2)
    next
      case (Normal newest)
      have nw1: "newest_of toISO (data (fetchLatestCompetitive up1 (length reqs1) rg)) = Normal newest"
        using Normal by (simp add: res_def)
      have nw2: "newest_of toISO (data (fetchLatestCompetitive up2 (length reqs2) rg)) = Normal newest"
        using Normal by (simp add: res2)
      obtain b ag1 n1 where w1: "walk toISO a rg lk (data res) (ag, 0) = (b, ag1, n1)"
        by (cases "walk toISO a rg lk (data res) (ag, 0)") auto
      have w1': "walk toISO a rg (select_cursor (player_cursor ag) (rg @ '':'' @ name a @ '':'' @ tag a))
           (data (fetchLatestCompetitive up1 (length reqs1) rg)) (ag, 0) = (b, ag1, n1)"
        using w1 by (simp add: lk_def key_def res_def)
      note first = ingest_resolved_walk [OF ok1 nw1 w1']
      have c1: "player_cursor ag1 = player_cursor ag"
        using walk_cursor [of toISO a rg lk "data res" "(ag, 0)"] w1 by simp
      show ?thesis
      proof (cases "b \<and> truthy (fst newest)")
        case False
        then have f: "fst (snd (ingest_resolved toISO up1 a rg reqs1 ag)) = ag1"
          by (auto simp: first)
        from walk_again [OF w1, of ag1 0] obtain ag2 where
          w2: "walk toISO a rg lk (data res) (ag1, 0) = (b, ag2, 0)"
          and m2: "valorant_matches ag2 = valorant_matches ag1"
          and c2: "player_cursor ag2 = player_cursor ag1"
          by auto
        have w2': "walk toISO a rg (select_cursor (player_cursor ag1) (rg @ '':'' @ name a @ '':'' @ tag a))
           (data (fetchLatestCompetitive up2 (length reqs2) rg)) (ag1, 0) = (b, ag2, 0)"
          using w2 by (simp add: lk_def key_def res2 c1)
        note second = ingest_resolved_walk [OF ok2 nw2 w2']
        show ?thesis
          unfolding f using False m2 c2 by (auto simp: second)
      next
        case True
        define c where "c = \<lparr>pk = key, last_match_id = fst newest, last_started_at = snd newest\<rparr>"
        define ag1' where "ag1' = ag1\<lparr>player_cursor := upsert_cursor c (player_cursor ag1)\<rparr>"
        have f: "fst (snd (ingest_resolved toISO up1 a rg reqs1 ag)) = ag1'"
          using True by (simp add: first ag1'_def c_def key_def)
        have lk1: "select_cursor (player_cursor ag1') key = fst newest"
          using select_upsert_cursor [of c "player_cursor ag1"] by (simp add: c_def ag1'_def)
        obtain m0 rest where page: "data res = m0 # rest" and m0: "matchId_of m0 = fst newest"
          using Normal True
          by (auto simp: newest_of_def split: list.splits completion.splits)
        have w2: "walk toISO a rg (fst newest) (data res) (ag1', 0) = (True, ag1', 0)"
          using True m0 by (simp add: page)
        have w2': "walk toISO a rg (select_cursor (player_cursor ag1') (rg @ '':'' @ name a @ '':'' @ tag a))
           (data (fetchLatestCompetitive up2 (length reqs2) rg)) (ag1', 0) = (True, ag1', 0)"
          using w2 lk1 by (simp add: key_def res2)
        note second = ingest_resolved_walk [OF ok2 nw2 w2']
        have idem: "upsert_cursor c (player_cursor ag1') = player_cursor ag1'"
          by (simp add: ag1'_def upsert_cursor_idem)
        show ?thesis
          unfolding f using True idem by (simp add: second c_def key_def)
      qed
    qed
  qed
qed

subsection \<open>The stop at the known match\<close>

lemma walk_stop:
  assumes "matchId_of M = Some k" and "k \<noteq> []" and "\<forall>m\<in>set pre. matchId_of m \<noteq> Some k"
  shows "walk toISO a rg (Some k) (pre @ M # post) st = walk toISO a rg (Some k) pre st"
  using assms(3)
proof (induction pre arbitrary: st)
  case Nil
  show ?case using assms(1,2) by simp
next
  case (Cons m pre)
  then show ?case by (auto split: completion.splits)
qed

lemma walked_subset:
  "set (walked toISO lk ms) \<subseteq> {i. i \<noteq> [] \<and> Some i \<in> matchId_of ` set ms}"
proof (induction ms)
  case Nil
  show ?case by simp
next
  case (Cons m ms)
  show ?case
  proof (cases "matchId_of m")
    case None
    then show ?thesis using Cons by auto
  next
    case (Some i)
    then show ?thesis using Cons by (auto split: completion.splits simp: image_iff)
  qed
qed

lemma walk_all:
  assumes "\<forall>m\<in>set pre. matchId_of m \<noteq> Some k \<and> started_of toISO m \<noteq> Threw"
  shows "fst (walk toISO a rg (Some k) pre st) = True"
    and "set (walked toISO (Some k) pre) = {i. i \<noteq> [] \<and> Some i \<in> matchId_of ` set pre}"
  using assms
proof (induction pre arbitrary: st)
  case Nil
  { case 1 show ?case by simp }
  { case 2 show ?case by simp }
next
  case (Cons m pre)
  { case 1
    then show ?case using Cons.IH(1) by (auto split: completion.splits) }
  { case 2
    then have ih: "set (walked toISO (Some k) pre) = {i. i \<noteq> [] \<and> Some i \<in> matchId_of ` set pre}"
      using Cons.IH(2) by simp
    show ?case
    proof (cases "matchId_of m")
      case None
      then show ?thesis using ih by auto
    next
      case (Some i)
      obtain s where "started_of toISO m = Normal s"
        using 2 by (cases "started_of toISO m") auto
      then show ?thesis using ih Some 2 by (auto simp: image_iff)
    qed }
qed

lemma filter_replace_stats:
  assumes "match_id row \<in> S"
  shows "filter (\<lambda>r. match_id r \<notin> S) (replace_stats row t) = filter (\<lambda>r. match_id r \<notin> S) t"
proof -
  have "filter (\<lambda>r. match_id r \<notin> S) (filter (\<lambda>r. match_id r \<noteq> match_id row) t) =
        filter (\<lambda>r. match_id r \<notin> S) t"
    using assms by (induction t) auto
  then show ?thesis using assms by (simp add: replace_stats_def)
qed

lemma match_id_stats_row_of: "match_id (stats_row_of a rg i m) = i"
  and ps_name_stats_row_of: "ps_name (stats_row_of a rg i m) = name a"
  and ps_tag_stats_row_of: "ps_tag (stats_row_of a rg i m) = tag a"
  by (simp_all add: stats_row_of_def Let_def)

lemma walk_stats_other:
  assumes "set (walked toISO lk ms) \<subseteq> S"
  shows "filter (\<lambda>r. match_id r \<notin> S) (valorant_player_stats (fst (snd (walk toISO a rg lk ms st)))) =
         filter (\<lambda>r. match_id r \<notin> S) (valorant_player_stats (fst st))"
  using assms
proof (induction ms arbitrary: st)
  case Nil
  show ?case by simp
next
  case (Cons m ms)
  show ?case
  proof (cases "\<not> truthy (matchId_of m) \<or> (truthy lk \<and> matchId_of m = lk) \<or> started_of toISO m = Threw")
    case True
    show ?thesis
    proof (cases "\<not> truthy (matchId_of m)")
      case skip: True
      then have "set (walked toISO lk ms) \<subseteq> S" using Cons.prems by simp
      from Cons.IH [OF this, of st] show ?thesis using skip by simp
    next
      case noskip: False
      then have "walk toISO a rg lk (m # ms) st = (True, st) \<or>
                 walk toISO a rg lk (m # ms) st = (False, st)"
        using True by (auto split: completion.splits)
      then show ?thesis by auto
    qed
  next
    case False
    then obtain i s where i: "matchId_of m = Some i" and s: "started_of toISO m = Normal s"
      by (cases "matchId_of m"; cases "started_of toISO m") auto
    have wd: "walked toISO lk (m # ms) = i # walked toISO lk ms"
      using False i s by auto
    have w: "walk toISO a rg lk (m # ms) st = walk toISO a rg lk ms (store_match a rg i s m st)"
      using False i s by auto
    have "i \<in> S" and sub: "set (walked toISO lk ms) \<subseteq> S"
      using Cons.prems wd by auto
    then show ?thesis
      unfolding w using Cons.IH [OF sub, of "store_match a rg i s m st"]
      by (simp add: store_match_stats filter_replace_stats match_id_stats_row_of)
  qed
qed

lemma newest_of_append: "newest_of toISO (pre @ M # post) = newest_of toISO (pre @ [M])"
  by (cases pre) (simp_all add: newest_of_def)

lemma fetch_ok:
  assumes "res_ok (up n rg)" and "json_data (up n rg) = Some page"
  shows "ok (fetchLatestCompetitive up n rg)" and "data (fetchLatestCompetitive up n rg) = page"
  using assms by (simp_all add: fetchLatestCompetitive_def)

text \<open>
  C2 as stated fails: alice's cursor is at \<open>M5\<close> and the page is \<open>[M8, M7, M6, M5, M4]\<close>,
  but \<open>M8\<close>, which she played with bob, was stored by bob's sync. The sync inserts
  \<open>M7\<close> and \<open>M6\<close> only and reports 2 new matches, not the three that precede \<open>M5\<close>.
\<close>

theorem sync_inserts_all_before_cursor_counterexample:
  "select_cursor (player_cursor alice_again) ''na:alice:1'' = Some ''M5'' \<and>
   map matchId_of (map shared [''M8'', ''M7'', ''M6'', ''M5'', ''M4'']) =
     [Some ''M8'', Some ''M7'', Some ''M6'', Some ''M5'', Some ''M4''] \<and>
   fst (ingestOrRefreshMatches no_iso (serving (map shared [''M8'', ''M7'', ''M6'', ''M5'', ''M4'']))
          alice_again) = Refreshed ''alice'' ''1'' ''na'' 2 \<and>
   map m_id (valorant_matches alice_again) = [''M5'', ''M4'', ''M8''] \<and>
   map m_id (valorant_matches (sync (map shared [''M8'', ''M7'', ''M6'', ''M5'', ''M4'']) alice_again)) =
     [''M5'', ''M4'', ''M8'', ''M7'', ''M6'']"
  by code_simp

subsection \<open>Region resolution and upstream errors\<close>

lemma probe_hit_iff:
  "ok (fetchLatestCompetitive up n r) \<and> data (fetchLatestCompetitive up n r) \<noteq> [] \<longleftrightarrow>
     returns_data (up n r)"
  by (auto simp: fetchLatestCompetitive_def Let_def returns_data_def split: option.splits)

lemma probe_none:
  assumes "\<forall>i<length rs. \<not> returns_data (up (length reqs + i) (rs ! i))"
  shows "probe up reqs rs = (None, reqs @ rs)"
  using assms
proof (induction rs arbitrary: reqs)
  case Nil
  show ?case by simp
next
  case (Cons r rs)
  have miss: "\<not> returns_data (up (length reqs) r)"
    using Cons.prems by (auto dest: spec [of _ 0])
  have "\<forall>i<length rs. \<not> returns_data (up (length (reqs @ [r]) + i) (rs ! i))"
  proof (intro allI impI)
    fix i assume "i < length rs"
    then show "\<not> returns_data (up (length (reqs @ [r]) + i) (rs ! i))"
      using Cons.prems by (auto dest!: spec [of _ "Suc i"])
  qed
  from Cons.IH [OF this] show ?case
    using miss probe_hit_iff [of up "length reqs" r] by (simp add: Let_def)
qed

lemma probe_first:
  assumes "k < length rs"
    and "returns_data (up (length reqs + k) (rs ! k))"
    and "\<forall>i<k. \<not> returns_data (up (length reqs + i) (rs ! i))"
  shows "probe up reqs rs = (Some (rs ! k), reqs @ take (Suc k) rs)"
  using assms
proof (induction rs arbitrary: reqs k)
  case Nil
  then show ?case by simp
next
  case (Cons r rs)
  show ?case
  proof (cases k)
    case 0
    then have "returns_data (up (length reqs) r)" using Cons.prems by simp
    then show ?thesis using 0 probe_hit_iff [of up "length reqs" r] by (simp add: Let_def)
  next
    case (Suc j)
    have miss: "\<not> returns_data (up (length reqs) r)"
      using Cons.prems(3) Suc by (auto dest: spec [of _ 0])
    have j: "j < length rs" using Cons.prems(1) Suc by simp
    have hit: "returns_data (up (length (reqs @ [r]) + j) (rs ! j))"
      using Cons.prems(2) Suc by simp
    have "\<forall>i<j. \<not> returns_data (up (length (reqs @ [r]) + i) (rs ! i))"
    proof (intro allI impI)
      fix i assume "i < j"
      then show "\<not> returns_data (up (length (reqs @ [r]) + i) (rs ! i))"
        using Cons.prems(3) Suc by (auto dest!: spec [of _ "Suc i"])
    qed
    then have ih: "probe up (reqs @ [r]) rs = (Some (rs ! j), (reqs @ [r]) @ take (Suc j) rs)"
      by (rule Cons.IH [OF j hit])
    have nohit: "\<not> (ok (fetchLatestCompetitive up (length reqs) r) \<and>
                    data (fetchLatestCompetitive up (length reqs) r) \<noteq> [])"
      using miss by (simp only: probe_hit_iff not_False_eq_True)
    have "probe up reqs (r # rs) = probe up (reqs @ [r]) rs"
      using nohit by (auto simp: Let_def)
    then show ?thesis using ih Suc by simp
  qed
qed

lemma ingest_resolved_reqs: "snd (snd (ingest_resolved toISO up a rg reqs ag)) = reqs @ [rg]"
  by (auto simp: ingest_resolved_def Let_def split: completion.splits prod.splits bool.splits)

lemma ingest_resolved_reply: "fst (ingest_resolved toISO up a rg reqs ag) \<noteq> RegionUnresolved"
  by (auto simp: ingest_resolved_def Let_def split: completion.splits prod.splits bool.splits)

lemma ingest_probe_first:
  assumes "activePlayer ag = Some a" "name a \<noteq> []" "tag a \<noteq> []" "\<not> truthy (region a)"
    and "k < length REGIONS" "returns_data (up k (REGIONS ! k))"
    and "\<forall>i<k. \<not> returns_data (up i (REGIONS ! i))"
  shows "ingestOrRefreshMatches toISO up ag =
           ingest_resolved toISO up a (REGIONS ! k) (take (Suc k) REGIONS)
             (ag\<lparr>activePlayer := Some (a\<lparr>region := Some (REGIONS ! k)\<rparr>)\<rparr>)"
proof -
  have "probe up [] REGIONS = (Some (REGIONS ! k), [] @ take (Suc k) REGIONS)"
    by (rule probe_first) (use assms in simp_all)
  then show ?thesis using assms(1-4) by (simp add: ingestOrRefreshMatches_def)
qed

text \<open>
  C5: for an active player with no region, the sync probes \<open>REGIONS\<close>, which is
  \<open>[na, eu, ap, kr, latam, br]\<close>, in order, one request each. If candidate \<open>k\<close> is the
  first whose response returns data, the requests made are the candidates up to \<open>k\<close> and
  then the fetch of the page for that region, none for a later candidate, and the region
  is written onto the \<open>activePlayer\<close> of the agent state. If no candidate returns data
  (each response empty or an error), the reply is the resolution error, all six
  candidates have been requested once, and the agent is unchanged: no region is guessed.
\<close>

theorem region_probe_order:
  assumes "activePlayer ag = Some a" and "name a \<noteq> []" and "tag a \<noteq> []"
    and "\<not> truthy (region a)"
  shows "(k < length REGIONS \<and> returns_data (up k (REGIONS ! k)) \<and>
          (\<forall>i<k. \<not> returns_data (up i (REGIONS ! i))) \<longrightarrow>
            activePlayer (fst (snd (ingestOrRefreshMatches toISO up ag))) =
              Some (a\<lparr>region := Some (REGIONS ! k)\<rparr>) \<and>
            snd (snd (ingestOrRefreshMatches toISO up ag)) = take (Suc k) REGIONS @ [REGIONS ! k] \<and>
            fst (ingestOrRefreshMatches toISO up ag) \<noteq> RegionUnresolved) \<and>
         ((\<forall>i<length REGIONS. \<not> returns_data (up i (REGIONS ! i))) \<longrightarrow>
            ingestOrRefreshMatches toISO up ag = (RegionUnresolved, ag, REGIONS))"
proof (intro conjI impI)
  assume h: "k < length REGIONS \<and> returns_data (up k (REGIONS ! k)) \<and>
          (\<forall>i<k. \<not> returns_data (up i (REGIONS ! i)))"
  have eq: "ingestOrRefreshMatches toISO up ag =
           ingest_resolved toISO up a (REGIONS ! k) (take (Suc k) REGIONS)
             (ag\<lparr>activePlayer := Some (a\<lparr>region := Some (REGIONS ! k)\<rparr>)\<rparr>)"
    by (rule ingest_probe_first) (use assms h in simp_all)
  show "activePlayer (fst (snd (ingestOrRefreshMatches toISO up ag))) =
              Some (a\<lparr>region := Some (REGIONS ! k)\<rparr>)"
    unfolding eq by (simp add: ingest_resolved_active)
  show "snd (snd (ingestOrRefreshMatches toISO up ag)) = take (Suc k) REGIONS @ [REGIONS ! k]"
    unfolding eq by (simp only: ingest_resolved_reqs)
  show "fst (ingestOrRefreshMatches toISO up ag) \<noteq> RegionUnresolved"
    unfolding eq by (rule ingest_resolved_reply)
next
  assume "\<forall>i<length REGIONS. \<not> returns_data (up i (REGIONS ! i))"
  then have "probe up [] REGIONS = (None, [] @ REGIONS)"
    by (intro probe_none) simp
  then show "ingestOrRefreshMatches toISO up ag = (RegionUnresolved, ag, REGIONS)"
    using assms by (simp add: ingestOrRefreshMatches_def)
qed

theorem region_probe_order_witness:
  "activePlayer (fst (snd (ingestOrRefreshMatches no_iso only_eu ollie))) =
     Some \<lparr>region = Some ''eu'', name = ''ollie'', tag = ''chaos''\<rparr> \<and>
   snd (snd (ingestOrRefreshMatches no_iso only_eu ollie)) = [''na'', ''eu'', ''eu''] \<and>
   fst (ingestOrRefreshMatches no_iso only_eu ollie) \<noteq> RegionUnresolved \<and>
   ingestOrRefreshMatches no_iso (serving []) ollie =
     (RegionUnresolved, ollie, [''na'', ''eu'', ''ap'', ''kr'', ''latam'', ''br''])"
proof -
  let ?a = "\<lparr>region = None, name = ''ollie'', tag = ''chaos''\<rparr>"
  have act: "activePlayer ollie = Some ?a" by (simp add: ollie_def)
  have a: "name ?a \<noteq> []" "tag ?a \<noteq> []" "\<not> truthy (region ?a)" by simp_all
  have hit: "Suc 0 < length REGIONS \<and> returns_data (only_eu (Suc 0) (REGIONS ! Suc 0)) \<and>
      (\<forall>i<Suc 0. \<not> returns_data (only_eu i (REGIONS ! i)))"
    by (simp add: REGIONS_def only_eu_def returns_data_def)
  have none: "\<forall>i<length REGIONS. \<not> returns_data (serving [] i (REGIONS ! i))"
    by (simp add: serving_def returns_data_def)
  note R = region_probe_order [OF act a, where k = "Suc 0"]
  have 1: "activePlayer (fst (snd (ingestOrRefreshMatches no_iso only_eu ollie))) =
       Some (?a\<lparr>region := Some (REGIONS ! Suc 0)\<rparr>) \<and>
     snd (snd (ingestOrRefreshMatches no_iso only_eu ollie)) =
       take (Suc (Suc 0)) REGIONS @ [REGIONS ! Suc 0] \<and>
     fst (ingestOrRefreshMatches no_iso only_eu ollie) \<noteq> RegionUnresolved"
    by (rule R [THEN conjunct1, THEN mp]) (rule hit)
  have 2: "ingestOrRefreshMatches no_iso (serving []) ollie = (RegionUnresolved, ollie, REGIONS)"
    by (rule R [THEN conjunct2, THEN mp]) (rule none)
  show ?thesis using 1 2 by (simp add: REGIONS_def)
qed

text \<open>
  C4: when the fetch that follows the region resolution returns a non-success status
  (request 0 when the region is known, the request after the successful probe
  otherwise), the reply is the error \<open>HenrikDevError status\<close>, not a success, and the three
  tables are as before: no row inserted, no cursor row created or advanced.
\<close>

theorem sync_upstream_error:
  assumes "activePlayer ag = Some a" and "name a \<noteq> []" and "tag a \<noteq> []"
  shows "(truthy (region a) \<and> region a = Some rg \<and> \<not> res_ok (up 0 rg) \<longrightarrow>
            ingestOrRefreshMatches toISO up ag = (HenrikDevError (res_status (up 0 rg)), ag, [rg])) \<and>
         (\<not> truthy (region a) \<and> k < length REGIONS \<and> returns_data (up k (REGIONS ! k)) \<and>
          (\<forall>i<k. \<not> returns_data (up i (REGIONS ! i))) \<and> \<not> res_ok (up (Suc k) (REGIONS ! k)) \<longrightarrow>
            (\<exists>ag'. ingestOrRefreshMatches toISO up ag =
                     (HenrikDevError (res_status (up (Suc k) (REGIONS ! k))), ag',
                      take (Suc k) REGIONS @ [REGIONS ! k]) \<and>
                   valorant_matches ag' = valorant_matches ag \<and>
                   valorant_player_stats ag' = valorant_player_stats ag \<and>
                   player_cursor ag' = player_cursor ag))"
proof (intro conjI impI)
  assume h: "truthy (region a) \<and> region a = Some rg \<and> \<not> res_ok (up 0 rg)"
  then have "\<not> ok (fetchLatestCompetitive up (length ([]::string list)) rg)"
    by (simp add: fetchLatestCompetitive_def Let_def)
  from ingest_resolved_error [OF this, of toISO a ag]
  have r: "ingest_resolved toISO up a rg [] ag = (HenrikDevError (res_status (up 0 rg)), ag, [rg])"
    using h by (simp add: fetchLatestCompetitive_def Let_def)
  have "rg \<noteq> []" using h by auto
  then have "ingestOrRefreshMatches toISO up ag = ingest_resolved toISO up a rg [] ag"
    using assms h by (simp add: ingestOrRefreshMatches_def)
  then show "ingestOrRefreshMatches toISO up ag = (HenrikDevError (res_status (up 0 rg)), ag, [rg])"
    by (simp only: r)
next
  assume h: "\<not> truthy (region a) \<and> k < length REGIONS \<and> returns_data (up k (REGIONS ! k)) \<and>
          (\<forall>i<k. \<not> returns_data (up i (REGIONS ! i))) \<and> \<not> res_ok (up (Suc k) (REGIONS ! k))"
  let ?ag = "ag\<lparr>activePlayer := Some (a\<lparr>region := Some (REGIONS ! k)\<rparr>)\<rparr>"
  have eq: "ingestOrRefreshMatches toISO up ag =
           ingest_resolved toISO up a (REGIONS ! k) (take (Suc k) REGIONS) ?ag"
    by (rule ingest_probe_first) (use assms h in simp_all)
  have len: "length (take (Suc k) REGIONS) = Suc k" using h by simp
  have "\<not> ok (fetchLatestCompetitive up (length (take (Suc k) REGIONS)) (REGIONS ! k))"
    unfolding len using h by (simp add: fetchLatestCompetitive_def Let_def)
  from ingest_resolved_error [OF this, of toISO a ?ag]
  have "ingestOrRefreshMatches toISO up ag =
          (HenrikDevError (res_status (up (Suc k) (REGIONS ! k))), ?ag,
           take (Suc k) REGIONS @ [REGIONS ! k])"
    unfolding eq len using h by (simp add: fetchLatestCompetitive_def Let_def)
  then show "\<exists>ag'. ingestOrRefreshMatches toISO up ag =
                     (HenrikDevError (res_status (up (Suc k) (REGIONS ! k))), ag',
                      take (Suc k) REGIONS @ [REGIONS ! k]) \<and>
                   valorant_matches ag' = valorant_matches ag \<and>
                   valorant_player_stats ag' = valorant_player_stats ag \<and>
                   player_cursor ag' = player_cursor ag"
    by (intro exI [of _ ?ag]) simp
qed

theorem sync_upstream_error_witness:
  "ingestOrRefreshMatches no_iso (failing 429) alice_at_M5 =
     (HenrikDevError 429, alice_at_M5, [''na'']) \<and>
   (\<exists>ag'. ingestOrRefreshMatches no_iso eu_then_429 ollie =
            (HenrikDevError 429, ag', [''na'', ''eu'', ''eu'']) \<and>
          valorant_matches ag' = valorant_matches ollie \<and>
          valorant_player_stats ag' = valorant_player_stats ollie \<and>
          player_cursor ag' = player_cursor ollie)"
proof -
  let ?a = "\<lparr>region = None, name = ''ollie'', tag = ''chaos''\<rparr>"
  have act1: "activePlayer alice_at_M5 = Some alice" by (simp add: alice_at_M5_def)
  have a1: "name alice \<noteq> []" "tag alice \<noteq> []" by (simp_all add: alice_def)
  have h1: "truthy (region alice) \<and> region alice = Some ''na'' \<and> \<not> res_ok (failing 429 0 ''na'')"
    by (simp add: alice_def failing_def)
  have 1: "ingestOrRefreshMatches no_iso (failing 429) alice_at_M5 =
      (HenrikDevError (res_status (failing 429 0 ''na'')), alice_at_M5, [''na''])"
    by (rule sync_upstream_error [OF act1 a1, THEN conjunct1, THEN mp]) (rule h1)
  have act2: "activePlayer ollie = Some ?a" by (simp add: ollie_def)
  have a2: "name ?a \<noteq> []" "tag ?a \<noteq> []" by simp_all
  have h2: "\<not> truthy (region ?a) \<and> Suc 0 < length REGIONS \<and>
      returns_data (eu_then_429 (Suc 0) (REGIONS ! Suc 0)) \<and>
      (\<forall>i<Suc 0. \<not> returns_data (eu_then_429 i (REGIONS ! i))) \<and>
      \<not> res_ok (eu_then_429 (Suc (Suc 0)) (REGIONS ! Suc 0))"
    by (simp add: REGIONS_def eu_then_429_def returns_data_def)
  have 2: "\<exists>ag'. ingestOrRefreshMatches no_iso eu_then_429 ollie =
            (HenrikDevError (res_status (eu_then_429 (Suc (Suc 0)) (REGIONS ! Suc 0))), ag',
             take (Suc (Suc 0)) REGIONS @ [REGIONS ! Suc 0]) \<and>
          valorant_matches ag' = valorant_matches ollie \<and>
          valorant_player_stats ag' = valorant_player_stats ollie \<and>
          player_cursor ag' = player_cursor ollie"
    by (rule sync_upstream_error [OF act2 a2, where k = "Suc 0", THEN conjunct2, THEN mp]) (rule h2)
  have s: "res_status (eu_then_429 (Suc (Suc 0)) (REGIONS ! Suc 0)) = 429"
    "take (Suc (Suc 0)) REGIONS @ [REGIONS ! Suc 0] = [''na'', ''eu'', ''eu'']"
    "res_status (failing 429 0 ''na'') = 429"
    by (simp_all add: REGIONS_def eu_then_429_def failing_def)
  show ?thesis using 1 2 unfolding s by (intro conjI)
qed

subsection \<open>The computations of the queries\<close>

lemma foldl_add_int: "foldl (\<lambda>a b. a + b) (s::int) xs = s + sum_list xs"
  by (induction xs arbitrary: s) simp_all

lemma sum_int_sum_list:
  "sum_int arr = sum_list (map (\<lambda>b. case b of None \<Rightarrow> 0 | Some v \<Rightarrow> v) arr)"
proof -
  have "foldl (\<lambda>a b. a + (case b of None \<Rightarrow> 0 | Some v \<Rightarrow> v)) (s::int) arr =
        s + sum_list (map (\<lambda>b. case b of None \<Rightarrow> 0 | Some v \<Rightarrow> v) arr)" for s
    by (induction arr arbitrary: s) simp_all
  then show ?thesis by (simp add: sum_int_def)
qed

lemma toFixed2_0: "toFixed2 0 = 0"
  by (simp add: toFixed2_def)

lemma queryKDR_result:
  assumes "activePlayer ag = Some a" and "name a \<noteq> []" and "tag a \<noteq> []"
    and "select_kdr ag a mp lastN = rows" and "rows \<noteq> []"
  shows "queryKDR fl mp lastN ag =
     KDR_Result
       \<lparr>matchesConsidered = length rows,
        kdr_map = (case mp of Some s \<Rightarrow> s | None \<Rightarrow> ''all''),
        averageKDR =
          (if sum_list (map (\<lambda>r. case snd r of Some d \<Rightarrow> d | None \<Rightarrow> 0) rows) = 0
           then (if sum_list (map (\<lambda>r. case fst r of Some k \<Rightarrow> k | None \<Rightarrow> 0) rows) > 0
                 then Infinity else Finite 0)
           else Finite (toFixed2 (fdiv fl
                  (of_int (sum_list (map (\<lambda>r. case fst r of Some k \<Rightarrow> k | None \<Rightarrow> 0) rows)))
                  (of_int (sum_list (map (\<lambda>r. case snd r of Some d \<Rightarrow> d | None \<Rightarrow> 0) rows))))))\<rparr>"
  using assms by (simp add: queryKDR_def Let_def foldl_add_int toFixed2_0)

lemma summarize_result:
  assumes "activePlayer ag = Some a" and "name a \<noteq> []" and "tag a \<noteq> []"
    and "select_summary ag a mp lastN = rows" and "rows \<noteq> []"
  shows "\<exists>res. summarizeRecentPerformance fl mp lastN ag = Sum_Result res \<and>
      sum_matchesConsidered res = length rows \<and>
      avg_kdr (sum_averages res) =
        (if sum_int (map deaths rows) = 0
         then (if sum_int (map kills rows) > 0 then Infinity else Finite 0)
         else Finite (toFixed2 (fdiv fl (of_int (sum_int (map kills rows)))
                                        (of_int (sum_int (map deaths rows)))))) \<and>
      headshotRatePct (sum_averages res) =
        (if sum_int (map headshots rows) + sum_int (map bodyshots rows) + sum_int (map legshots rows) > 0
         then toFixed2 (fmul fl
                (fdiv fl (of_int (sum_int (map headshots rows)))
                   (of_int (sum_int (map headshots rows) + sum_int (map bodyshots rows) +
                            sum_int (map legshots rows))))
                100)
         else 0)"
  using assms by (simp add: summarizeRecentPerformance_def Let_def)

lemma sum_non_null_fst:
  "sum_list (map (\<lambda>r. case fst r of Some k \<Rightarrow> k | None \<Rightarrow> (0::int)) rows) =
   sum_list [k. (Some k, d) \<leftarrow> rows]"
  by (induction rows) (auto split: option.splits)

lemma sum_non_null_snd:
  "sum_list (map (\<lambda>r. case snd r of Some d \<Rightarrow> d | None \<Rightarrow> (0::int)) rows) =
   sum_list [d. (k, Some d) \<leftarrow> rows]"
  by (induction rows) (auto split: option.splits)

lemma sum_all_null:
  assumes "\<forall>r\<in>set rows. fst r = None \<and> snd r = None"
  shows "sum_list [k. (Some k, d) \<leftarrow> rows] = (0::int)" and "sum_list [d. (k, Some d) \<leftarrow> rows] = (0::int)"
  using assms by (induction rows) (auto split: option.splits)

lemma alice_nonempty: "name alice \<noteq> []" "tag alice \<noteq> []"
  by (simp_all add: alice_def)

text \<open>
  C6: for a non-empty window, \<open>queryKDR\<close> and \<open>summarizeRecentPerformance\<close> return a
  result (no fault on the division), whose KDR is: the string "Infinity" when the summed
  deaths are 0 and the summed kills are positive; exactly 0 when both sums are 0; and when
  the summed deaths are not 0, the quotient of the sums (the division of doubles, \<open>fdiv\<close>)
  rounded to 2 decimals by \<open>toFixed(2)\<close>. A null statistic counts as 0 in the sums. For
  counts, which are not negative, the three cases are all the cases.
\<close>

theorem kdr_cases:
  fixes fl :: float_ops
  defines "K rows \<equiv> sum_list (map (\<lambda>r. case fst r of Some k \<Rightarrow> k | None \<Rightarrow> 0) rows)"
    and "D rows \<equiv> sum_list (map (\<lambda>r. case snd r of Some d \<Rightarrow> d | None \<Rightarrow> 0) rows)"
    and "K' srows \<equiv> sum_list (map (\<lambda>b. case b of None \<Rightarrow> 0 | Some v \<Rightarrow> v) (map kills srows))"
    and "D' srows \<equiv> sum_list (map (\<lambda>b. case b of None \<Rightarrow> 0 | Some v \<Rightarrow> v) (map deaths srows))"
  assumes "activePlayer ag = Some a" and "name a \<noteq> []" and "tag a \<noteq> []"
    and "select_kdr ag a mp lastN = rows" and "select_summary ag a mp lastN = srows"
  shows "(rows \<noteq> [] \<longrightarrow>
           (\<exists>res. queryKDR fl mp lastN ag = KDR_Result res \<and>
              (D rows = 0 \<and> K rows > 0 \<longrightarrow> averageKDR res = Infinity) \<and>
              (D rows = 0 \<and> K rows = 0 \<longrightarrow> averageKDR res = Finite 0) \<and>
              (D rows \<noteq> 0 \<longrightarrow>
                 averageKDR res = Finite (toFixed2 (fdiv fl (of_int (K rows)) (of_int (D rows))))))) \<and>
         (srows \<noteq> [] \<longrightarrow>
           (\<exists>res. summarizeRecentPerformance fl mp lastN ag = Sum_Result res \<and>
              (D' srows = 0 \<and> K' srows > 0 \<longrightarrow> avg_kdr (sum_averages res) = Infinity) \<and>
              (D' srows = 0 \<and> K' srows = 0 \<longrightarrow> avg_kdr (sum_averages res) = Finite 0) \<and>
              (D' srows \<noteq> 0 \<longrightarrow>
                 avg_kdr (sum_averages res) =
                   Finite (toFixed2 (fdiv fl (of_int (K' srows)) (of_int (D' srows)))))))"
proof (intro conjI impI)
  assume "rows \<noteq> []"
  from queryKDR_result [OF assms(5-8) this, of fl]
  show "\<exists>res. queryKDR fl mp lastN ag = KDR_Result res \<and>
              (D rows = 0 \<and> K rows > 0 \<longrightarrow> averageKDR res = Infinity) \<and>
              (D rows = 0 \<and> K rows = 0 \<longrightarrow> averageKDR res = Finite 0) \<and>
              (D rows \<noteq> 0 \<longrightarrow>
                 averageKDR res = Finite (toFixed2 (fdiv fl (of_int (K rows)) (of_int (D rows)))))"
    by (simp add: K_def D_def)
next
  assume "srows \<noteq> []"
  from summarize_result [OF assms(5-7) assms(9) this, of fl]
  show "\<exists>res. summarizeRecentPerformance fl mp lastN ag = Sum_Result res \<and>
              (D' srows = 0 \<and> K' srows > 0 \<longrightarrow> avg_kdr (sum_averages res) = Infinity) \<and>
              (D' srows = 0 \<and> K' srows = 0 \<longrightarrow> avg_kdr (sum_averages res) = Finite 0) \<and>
              (D' srows \<noteq> 0 \<longrightarrow>
                 avg_kdr (sum_averages res) =
                   Finite (toFixed2 (fdiv fl (of_int (K' srows)) (of_int (D' srows)))))"
    unfolding K'_def D'_def sum_int_sum_list [symmetric] by auto
qed

theorem kdr_cases_witness:
  "(\<exists>res. queryKDR exact_ops None 20 flawless = KDR_Result res \<and> averageKDR res = Infinity) \<and>
   (\<exists>res. summarizeRecentPerformance exact_ops None 20 flawless = Sum_Result res \<and>
          avg_kdr (sum_averages res) = Infinity) \<and>
   (\<exists>res. queryKDR exact_ops None 20 ghost = KDR_Result res \<and> averageKDR res = Finite 0) \<and>
   (\<exists>res. summarizeRecentPerformance exact_ops None 20 ghost = Sum_Result res \<and>
          avg_kdr (sum_averages res) = Finite 0) \<and>
   (\<exists>res. queryKDR exact_ops None 20 uneven = KDR_Result res \<and> averageKDR res = Finite (333 / 100)) \<and>
   (\<exists>res. summarizeRecentPerformance exact_ops None 20 uneven = Sum_Result res \<and>
          avg_kdr (sum_averages res) = Finite (333 / 100))"
proof -
  have f: "activePlayer flawless = Some alice" "select_kdr flawless alice None 20 = [(Some 10, Some 0)]"
    "map kills (select_summary flawless alice None 20) = [Some 10]"
    "map deaths (select_summary flawless alice None 20) = [Some 0]"
    by code_simp+
  have g: "activePlayer ghost = Some alice" "select_kdr ghost alice None 20 = [(None, None)]"
    "map kills (select_summary ghost alice None 20) = [None]"
    "map deaths (select_summary ghost alice None 20) = [None]"
    by code_simp+
  have u: "activePlayer uneven = Some alice" "select_kdr uneven alice None 20 = [(Some 10, Some 3)]"
    "map kills (select_summary uneven alice None 20) = [Some 10]"
    "map deaths (select_summary uneven alice None 20) = [Some 3]"
    by code_simp+
  have r: "toFixed2 (fdiv exact_ops 10 3) = 333 / 100"
    by code_simp
  have ne: "select_summary flawless alice None 20 \<noteq> []" "select_summary ghost alice None 20 \<noteq> []"
    "select_summary uneven alice None 20 \<noteq> []"
    using f(3) g(3) u(3) by auto
  note F = kdr_cases [OF f(1) alice_nonempty f(2) refl, of exact_ops]
  note G = kdr_cases [OF g(1) alice_nonempty g(2) refl, of exact_ops]
  note U = kdr_cases [OF u(1) alice_nonempty u(2) refl, of exact_ops]
  have 1: "\<exists>res. queryKDR exact_ops None 20 flawless = KDR_Result res \<and> averageKDR res = Infinity"
    using F [THEN conjunct1] by simp
  have 2: "\<exists>res. summarizeRecentPerformance exact_ops None 20 flawless = Sum_Result res \<and>
          avg_kdr (sum_averages res) = Infinity"
    using F [THEN conjunct2, THEN mp, OF ne(1)] unfolding f(3) f(4) by simp
  have 3: "\<exists>res. queryKDR exact_ops None 20 ghost = KDR_Result res \<and> averageKDR res = Finite 0"
    using G [THEN conjunct1] by simp
  have 4: "\<exists>res. summarizeRecentPerformance exact_ops None 20 ghost = Sum_Result res \<and>
          avg_kdr (sum_averages res) = Finite 0"
    using G [THEN conjunct2, THEN mp, OF ne(2)] unfolding g(3) g(4) by simp
  have 5: "\<exists>res. queryKDR exact_ops None 20 uneven = KDR_Result res \<and> averageKDR res = Finite (333 / 100)"
    using U [THEN conjunct1] r by simp
  have 6: "\<exists>res. summarizeRecentPerformance exact_ops None 20 uneven = Sum_Result res \<and>
          avg_kdr (sum_averages res) = Finite (333 / 100)"
    using U [THEN conjunct2, THEN mp, OF ne(3)] r unfolding u(3) u(4) by simp
  show ?thesis by (intro conjI 1 2 3 4 5 6)
qed

text \<open>
  C10: in \<open>queryKDR\<close>, every selected row counts in \<open>matchesConsidered\<close>, also one whose
  kills or deaths are null, and the sums are those of the kills and of the deaths that
  are not null: a null adds 0. So a non-empty window of rows with null kills and deaths
  gives \<open>averageKDR\<close> 0, not the reply for no data. The witness is a sync of a match whose
  roster lacks the player, which stores such a row.
\<close>

theorem null_stats_counted:
  assumes "activePlayer ag = Some a" and "name a \<noteq> []" and "tag a \<noteq> []"
    and "select_kdr ag a mp lastN = rows" and "rows \<noteq> []"
  shows "\<exists>res. queryKDR fl mp lastN ag = KDR_Result res \<and>
           matchesConsidered res = length rows \<and>
           averageKDR res =
             (if sum_list [d. (k, Some d) \<leftarrow> rows] = 0
              then (if sum_list [k. (Some k, d) \<leftarrow> rows] > 0 then Infinity else Finite 0)
              else Finite (toFixed2 (fdiv fl (of_int (sum_list [k. (Some k, d) \<leftarrow> rows]))
                                             (of_int (sum_list [d. (k, Some d) \<leftarrow> rows]))))) \<and>
           ((\<forall>r\<in>set rows. fst r = None \<and> snd r = None) \<longrightarrow> averageKDR res = Finite 0)"
  using queryKDR_result [OF assms, of fl]
  by (auto simp: sum_non_null_fst sum_non_null_snd sum_all_null)

theorem null_stats_counted_witness:
  "find_player alice (all_players (game ''G1'' [roster_entry ''Bob'' ''2'' 7 7 2 2 2])) = None \<and>
   select_kdr ghost alice None 20 = [(None, None)] \<and>
   (\<exists>res. queryKDR exact_ops None 20 ghost = KDR_Result res \<and>
          matchesConsidered res = 1 \<and> averageKDR res = Finite 0)"
proof -
  have a: "find_player alice (all_players (game ''G1'' [roster_entry ''Bob'' ''2'' 7 7 2 2 2])) = None"
    by code_simp
  have g: "activePlayer ghost = Some alice" "select_kdr ghost alice None 20 = [(None, None)]"
    by code_simp+
  have "\<exists>res. queryKDR exact_ops None 20 ghost = KDR_Result res \<and>
          matchesConsidered res = 1 \<and> averageKDR res = Finite 0"
    using null_stats_counted [OF g(1) alice_nonempty g(2), of exact_ops] by simp
  then show ?thesis using a g(2) by (intro conjI)
qed

text \<open>
  C8, as amended: for a non-empty window the reported headshot rate, \<open>headshotRatePct\<close>, is
  a percentage: \<open>headshots / (headshots + bodyshots + legshots)\<close> over the summed window
  totals (nulls as 0), times 100, rounded to 2 decimals by \<open>toFixed(2)\<close>; it is 0 when the
  denominator is not positive.
\<close>

theorem headshot_rate_pct:
  fixes fl :: float_ops
  defines "summed col rows \<equiv> sum_list (map (\<lambda>b. case b of None \<Rightarrow> 0 | Some v \<Rightarrow> v) (map col rows))"
  assumes "activePlayer ag = Some a" and "name a \<noteq> []" and "tag a \<noteq> []"
    and "select_summary ag a mp lastN = rows" and "rows \<noteq> []"
  shows "\<exists>res. summarizeRecentPerformance fl mp lastN ag = Sum_Result res \<and>
           headshotRatePct (sum_averages res) =
             (if summed headshots rows + summed bodyshots rows + summed legshots rows > 0
              then toFixed2 (fmul fl
                     (fdiv fl (of_int (summed headshots rows))
                        (of_int (summed headshots rows + summed bodyshots rows + summed legshots rows)))
                     100)
              else 0)"
  using summarize_result [OF assms(2-6), of fl]
  unfolding summed_def sum_int_sum_list [symmetric] by auto

theorem headshot_rate_pct_witness:
  "map headshots (select_summary bob_synced bob None 10) = [Some 2, Some 2] \<and>
   map bodyshots (select_summary bob_synced bob None 10) = [Some 2, Some 2] \<and>
   map legshots (select_summary bob_synced bob None 10) = [Some 2, Some 2] \<and>
   (\<exists>res. summarizeRecentPerformance exact_ops None 10 bob_synced = Sum_Result res \<and>
          headshotRatePct (sum_averages res) = 3333 / 100)"
proof -
  have b: "activePlayer bob_synced = Some bob" by code_simp
  have nb: "name bob \<noteq> []" "tag bob \<noteq> []" by (simp_all add: bob_def)
  have rows: "map headshots (select_summary bob_synced bob None 10) = [Some 2, Some 2]"
    "map bodyshots (select_summary bob_synced bob None 10) = [Some 2, Some 2]"
    "map legshots (select_summary bob_synced bob None 10) = [Some 2, Some 2]"
    by code_simp+
  have ne: "select_summary bob_synced bob None 10 \<noteq> []" using rows(1) by auto
  have r: "toFixed2 (fmul exact_ops (fdiv exact_ops 4 12) 100) = 3333 / 100"
    by code_simp
  have "\<exists>res. summarizeRecentPerformance exact_ops None 10 bob_synced = Sum_Result res \<and>
          headshotRatePct (sum_averages res) = 3333 / 100"
    using headshot_rate_pct [OF b nb refl ne, of exact_ops] r unfolding rows by simp
  then show ?thesis using rows by (intro conjI)
qed

text \<open>
  C8 as stated fails: with 2 headshots among 8 shots over the window the tool reports 25,
  not the ratio \<open>2 / 8\<close>. (On these numbers the division and the multiplication of
  doubles are exact, so \<open>exact_ops\<close> is what JavaScript computes.)
\<close>

theorem headshot_rate_is_ratio_counterexample:
  "summarizeRecentPerformance exact_ops None 10 alice_synced =
     Sum_Result
       \<lparr>sum_matchesConsidered = 2, sum_map = ''all'',
        sum_averages =
          \<lparr>avg_kills = 10, avg_deaths = 5, avg_assists = 0, avg_kdr = Finite 2,
           avg_score = 0, damageMade = 0, damageReceived = 0,
           headshotRatePct = 25, spentOverall = 0, spentAvgPerRound = 0,
           loadoutOverall = 0, loadoutAvgPerRound = 0\<rparr>\<rparr> \<and>
   map (\<lambda>r. (headshots r, bodyshots r, legshots r)) (select_summary alice_synced alice None 10) =
     [(Some 1, Some 3, Some 0), (Some 1, Some 3, Some 0)] \<and>
   (25::rat) \<noteq> (1 + 1) / ((1 + 1) + (3 + 3) + (0 + 0))"
  by code_simp

subsection \<open>Letter case of name and tag\<close>

text \<open>The roster lookup depends on name and tag up to letter case only.\<close>

lemma find_player_ignores_case:
  assumes "toLowerCase (name a) = toLowerCase (name a')"
    and "toLowerCase (tag a) = toLowerCase (tag a')"
  shows "find_player a ps = find_player a' ps"
  using assms by (simp add: find_player_def)

text \<open>
  C7 at a failing input: the roster lookup finds \<open>Alice#1\<close> for the active player
  \<open>alice#1\<close>, but the queries compare name and tag with \<open>=\<close> in SQL, which tells letter
  case apart. With two matches stored for \<open>alice#1\<close>, setting \<open>Alice#1\<close> active makes
  \<open>queryKDR\<close>, \<open>summarizeRecentPerformance\<close> and \<open>listRecentMatches\<close> reply that nothing is
  stored; a sync as \<open>Alice#1\<close> stores 0 new matches and \<open>queryKDR\<close> and
  \<open>listRecentMatches\<close> still reply that nothing is stored.
\<close>

theorem queries_case_sensitive:
  "find_player \<lparr>region = Some ''na'', name = ''alice'', tag = ''1''\<rparr> (all_players (shared ''M5'')) =
     Some (roster_entry ''Alice'' ''1'' 10 5 1 3 0) \<and>
   activePlayer alice_synced = Some \<lparr>region = Some ''na'', name = ''alice'', tag = ''1''\<rparr> \<and>
   queryKDR exact_ops None 20 alice_synced =
     KDR_Result \<lparr>matchesConsidered = 2, kdr_map = ''all'', averageKDR = Finite 2\<rparr> \<and>
   listRecentMatches 10 alice_synced =
     List_Lines [(1, ''M5'', ''Competitive'', ''Ascent'', ''M5''),
                 (2, ''M4'', ''Competitive'', ''Ascent'', ''M4'')] \<and>
   activePlayer (activate Alice_input alice_synced) =
     Some \<lparr>region = Some ''na'', name = ''Alice'', tag = ''1''\<rparr> \<and>
   queryKDR exact_ops None 20 (activate Alice_input alice_synced) = KDR_NoStoredMatches \<and>
   summarizeRecentPerformance exact_ops None 10 (activate Alice_input alice_synced) =
     Sum_NoStoredMatches \<and>
   listRecentMatches 10 (activate Alice_input alice_synced) = List_NoStoredMatches \<and>
   fst (ingestOrRefreshMatches no_iso (serving [shared ''M5'', shared ''M4''])
          (activate Alice_input alice_synced)) = Refreshed ''Alice'' ''1'' ''na'' 0 \<and>
   queryKDR exact_ops None 20
     (sync [shared ''M5'', shared ''M4''] (activate Alice_input alice_synced)) = KDR_NoStoredMatches \<and>
   listRecentMatches 10
     (sync [shared ''M5'', shared ''M4''] (activate Alice_input alice_synced)) = List_NoStoredMatches"
  by code_simp

subsection \<open>Rows of one player under the sync of another\<close>

lemma replace_stats_distinct:
  assumes "distinct (map match_id t)"
  shows "distinct (map match_id (replace_stats row t))"
  using assms by (auto simp: replace_stats_def distinct_map_filter)

lemma walk_stats_distinct:
  assumes "distinct (map match_id (valorant_player_stats (fst st)))"
  shows "distinct (map match_id (valorant_player_stats (fst (snd (walk toISO a rg lk ms st)))))"
  using assms
proof (induction ms arbitrary: st)
  case Nil
  then show ?case by simp
next
  case (Cons m ms)
  have "distinct (map match_id (valorant_player_stats (fst (store_match a rg i s m st))))" for i s
    using Cons.prems by (simp add: store_match_stats replace_stats_distinct)
  then show ?case using Cons by (auto split: completion.splits)
qed

text \<open>What a sync does to the tables is what one run of the loop does, on some page served.\<close>

lemma ingest_resolved_tables:
  "\<exists>page. (page = [] \<or> json_data (up (length reqs) rg) = Some page) \<and>
     valorant_matches (fst (snd (ingest_resolved toISO up a rg reqs ag))) =
       valorant_matches (fst (snd (walk toISO a rg
         (select_cursor (player_cursor ag) (rg @ '':'' @ name a @ '':'' @ tag a)) page (ag, 0)))) \<and>
     valorant_player_stats (fst (snd (ingest_resolved toISO up a rg reqs ag))) =
       valorant_player_stats (fst (snd (walk toISO a rg
         (select_cursor (player_cursor ag) (rg @ '':'' @ name a @ '':'' @ tag a)) page (ag, 0))))"
proof -
  let ?res = "fetchLatestCompetitive up (length reqs) rg"
  let ?lk = "select_cursor (player_cursor ag) (rg @ '':'' @ name a @ '':'' @ tag a)"
  have unchanged: ?thesis if "fst (snd (ingest_resolved toISO up a rg reqs ag)) = ag"
    using that by (intro exI [of _ "[]"]) simp
  show ?thesis
  proof (cases "ok ?res")
    case False
    then show ?thesis by (intro unchanged) (simp add: ingest_resolved_error)
  next
    case okres: True
    show ?thesis
    proof (cases "newest_of toISO (data ?res)")
      case Threw
      then show ?thesis using okres by (intro unchanged) (simp add: ingest_resolved_threw)
    next
      case (Normal newest)
      obtain b ag1 n1 where w: "walk toISO a rg ?lk (data ?res) (ag, 0) = (b, ag1, n1)"
        by (cases "walk toISO a rg ?lk (data ?res) (ag, 0)") auto
      have page: "data ?res = [] \<or> json_data (up (length reqs) rg) = Some (data ?res)"
        by (auto simp: fetchLatestCompetitive_def Let_def split: option.splits)
      have "valorant_matches (fst (snd (ingest_resolved toISO up a rg reqs ag))) = valorant_matches ag1"
        "valorant_player_stats (fst (snd (ingest_resolved toISO up a rg reqs ag))) = valorant_player_stats ag1"
        by (simp_all add: ingest_resolved_walk [OF okres Normal w])
      then show ?thesis using page w by (intro exI [of _ "data ?res"]) simp
    qed
  qed
qed

lemma ingest_tables:
  assumes "activePlayer ag = Some b"
  shows "\<exists>ag0 rg lk page n.
     (page = [] \<or> json_data (up n rg) = Some page) \<and>
     valorant_matches ag0 = valorant_matches ag \<and>
     valorant_player_stats ag0 = valorant_player_stats ag \<and>
     valorant_matches (fst (snd (ingestOrRefreshMatches toISO up ag))) =
       valorant_matches (fst (snd (walk toISO b rg lk page (ag0, 0)))) \<and>
     valorant_player_stats (fst (snd (ingestOrRefreshMatches toISO up ag))) =
       valorant_player_stats (fst (snd (walk toISO b rg lk page (ag0, 0))))"
proof -
  have unchanged: ?thesis if "fst (snd (ingestOrRefreshMatches toISO up ag)) = ag"
    using that by (intro exI [of _ ag] exI [of _ "[]"] exI [of _ None] exI [of _ "[]"] exI [of _ 0]) simp
  have resolved: ?thesis
    if "ingestOrRefreshMatches toISO up ag = ingest_resolved toISO up b rg reqs ag0"
      and "valorant_matches ag0 = valorant_matches ag"
      and "valorant_player_stats ag0 = valorant_player_stats ag" for rg reqs ag0
  proof -
    obtain page where
      "(page = [] \<or> json_data (up (length reqs) rg) = Some page) \<and>
       valorant_matches (fst (snd (ingest_resolved toISO up b rg reqs ag0))) =
         valorant_matches (fst (snd (walk toISO b rg
           (select_cursor (player_cursor ag0) (rg @ '':'' @ name b @ '':'' @ tag b)) page (ag0, 0)))) \<and>
       valorant_player_stats (fst (snd (ingest_resolved toISO up b rg reqs ag0))) =
         valorant_player_stats (fst (snd (walk toISO b rg
           (select_cursor (player_cursor ag0) (rg @ '':'' @ name b @ '':'' @ tag b)) page (ag0, 0))))"
      using ingest_resolved_tables [of up reqs rg toISO b ag0] ..
    then show ?thesis
      using that
      by (intro exI [of _ ag0] exI [of _ rg]
            exI [of _ "select_cursor (player_cursor ag0) (rg @ '':'' @ name b @ '':'' @ tag b)"]
            exI [of _ page] exI [of _ "length reqs"])
         simp
  qed
  show ?thesis
  proof (cases "name b = [] \<or> tag b = []")
    case True
    then show ?thesis using assms by (intro unchanged) (simp add: ingestOrRefreshMatches_def)
  next
    case named: False
    show ?thesis
    proof (cases "truthy (region b)")
      case True
      then show ?thesis using assms named
        by (intro resolved [of "case region b of Some r \<Rightarrow> r | None \<Rightarrow> []" "[]" ag])
           (simp_all add: ingestOrRefreshMatches_def)
    next
      case False
      obtain r reqs where p: "probe up [] REGIONS = (r, reqs)"
        by (cases "probe up [] REGIONS") auto
      show ?thesis
      proof (cases r)
        case None
        then show ?thesis using assms named False p
          by (intro unchanged) (simp add: ingestOrRefreshMatches_def)
      next
        case (Some rg)
        then show ?thesis using assms named False p
          by (intro resolved [of rg reqs "ag\<lparr>activePlayer := Some (b\<lparr>region := Some rg\<rparr>)\<rparr>"])
             (simp_all add: ingestOrRefreshMatches_def)
      qed
    qed
  qed
qed

lemma set_insert_desc: "set (insert_desc key r xs) = insert r (set xs)"
  by (induction xs) auto

lemma set_order_desc: "set (order_desc key xs) = set xs"
  by (induction xs) (simp_all add: order_desc_def set_insert_desc)

lemma select_recent_only_active:
  "r \<in> set (select_recent ag b n) \<Longrightarrow> m_name r = name b \<and> m_tag r = tag b"
  by (auto simp: select_recent_def set_order_desc dest!: in_set_takeD)

lemma select_summary_only_active:
  "r \<in> set (select_summary ag b mp n) \<Longrightarrow> ps_name r = name b \<and> ps_tag r = tag b"
  by (auto simp: select_summary_def set_order_desc dest!: in_set_takeD split: if_splits)

lemma filter_appended_other:
  assumes "\<forall>r\<in>set new. m_name r = name b \<and> m_tag r = tag b"
    and "name A \<noteq> name b \<or> tag A \<noteq> tag b"
  shows "filter (\<lambda>r. m_name r = name A \<and> m_tag r = tag A \<and> Q r) (t @ new) =
         filter (\<lambda>r. m_name r = name A \<and> m_tag r = tag A \<and> Q r) t"
  using assms by (auto simp: filter_empty_conv)

lemma queries_other_player:
  assumes "valorant_matches ag' = valorant_matches ag @ new"
    and "\<forall>r\<in>set new. m_name r = name b \<and> m_tag r = tag b"
    and "name A \<noteq> name b \<or> tag A \<noteq> tag b"
  shows "queryKDR fl mp n (ag'\<lparr>activePlayer := Some A\<rparr>) = queryKDR fl mp n (ag\<lparr>activePlayer := Some A\<rparr>)"
    and "listRecentMatches n (ag'\<lparr>activePlayer := Some A\<rparr>) =
         listRecentMatches n (ag\<lparr>activePlayer := Some A\<rparr>)"
proof -
  have f1: "filter (\<lambda>r. m_name r = name A \<and> m_tag r = tag A \<and> m_map r = mp) (valorant_matches ag') =
            filter (\<lambda>r. m_name r = name A \<and> m_tag r = tag A \<and> m_map r = mp) (valorant_matches ag)"
    unfolding assms(1) by (rule filter_appended_other [OF assms(2,3)])
  have f2: "filter (\<lambda>r. m_name r = name A \<and> m_tag r = tag A) (valorant_matches ag') =
            filter (\<lambda>r. m_name r = name A \<and> m_tag r = tag A) (valorant_matches ag)"
    using filter_appended_other [OF assms(2,3), of "\<lambda>r. True" "valorant_matches ag"]
    unfolding assms(1) by simp
  have k: "select_kdr (ag'\<lparr>activePlayer := Some A\<rparr>) A mp n = select_kdr (ag\<lparr>activePlayer := Some A\<rparr>) A mp n"
    by (simp add: select_kdr_def f1 f2)
  have l: "select_recent (ag'\<lparr>activePlayer := Some A\<rparr>) A n = select_recent (ag\<lparr>activePlayer := Some A\<rparr>) A n"
    by (simp add: select_recent_def f2)
  show "queryKDR fl mp n (ag'\<lparr>activePlayer := Some A\<rparr>) = queryKDR fl mp n (ag\<lparr>activePlayer := Some A\<rparr>)"
    by (simp add: queryKDR_def k)
  show "listRecentMatches n (ag'\<lparr>activePlayer := Some A\<rparr>) =
         listRecentMatches n (ag\<lparr>activePlayer := Some A\<rparr>)"
    by (simp add: listRecentMatches_def l)
qed

text \<open>
  C3, as amended: the store keeps one row of \<open>valorant_matches\<close> and one row of
  \<open>valorant_player_stats\<close> per match id (not per match and player): a sync keeps the ids of
  each table distinct. With \<open>b\<close> active, a sync changes nothing for a player \<open>A\<close> of
  another name or tag in \<open>valorant_matches\<close>: after setting \<open>A\<close> active again,
  \<open>queryKDR\<close> and \<open>listRecentMatches\<close> reply as they would have before the sync. The
  queries under \<open>b\<close> select only rows stored with the name and tag of \<open>b\<close>. A row of
  \<open>valorant_player_stats\<close> is unchanged when its match is in no page served to the sync.
  (What becomes of the statistics row of a match that both players appeared in is left
  out.)
\<close>

theorem players_partitioned_by_name_tag:
  assumes "activePlayer ag = Some b" and "name A \<noteq> name b \<or> tag A \<noteq> tag b"
  shows "queryKDR fl mp n (fst (snd (ingestOrRefreshMatches toISO up ag))\<lparr>activePlayer := Some A\<rparr>) =
           queryKDR fl mp n (ag\<lparr>activePlayer := Some A\<rparr>) \<and>
         listRecentMatches n (fst (snd (ingestOrRefreshMatches toISO up ag))\<lparr>activePlayer := Some A\<rparr>) =
           listRecentMatches n (ag\<lparr>activePlayer := Some A\<rparr>) \<and>
         (\<forall>r\<in>set (select_recent (fst (snd (ingestOrRefreshMatches toISO up ag))) b n).
            m_name r = name b \<and> m_tag r = tag b) \<and>
         (\<forall>r\<in>set (select_summary (fst (snd (ingestOrRefreshMatches toISO up ag))) b mp n).
            ps_name r = name b \<and> ps_tag r = tag b) \<and>
         (distinct (map m_id (valorant_matches ag)) \<longrightarrow>
            distinct (map m_id (valorant_matches (fst (snd (ingestOrRefreshMatches toISO up ag)))))) \<and>
         (distinct (map match_id (valorant_player_stats ag)) \<longrightarrow>
            distinct (map match_id
              (valorant_player_stats (fst (snd (ingestOrRefreshMatches toISO up ag)))))) \<and>
         filter (\<lambda>r. match_id r \<notin> served_ids up)
             (valorant_player_stats (fst (snd (ingestOrRefreshMatches toISO up ag)))) =
           filter (\<lambda>r. match_id r \<notin> served_ids up) (valorant_player_stats ag)"
proof -
  let ?ag' = "fst (snd (ingestOrRefreshMatches toISO up ag))"
  obtain ag0 rg lk page k where t:
    "(page = [] \<or> json_data (up k rg) = Some page) \<and>
     valorant_matches ag0 = valorant_matches ag \<and>
     valorant_player_stats ag0 = valorant_player_stats ag \<and>
     valorant_matches ?ag' = valorant_matches (fst (snd (walk toISO b rg lk page (ag0, 0)))) \<and>
     valorant_player_stats ?ag' = valorant_player_stats (fst (snd (walk toISO b rg lk page (ag0, 0))))"
    using ingest_tables [OF assms(1), of up toISO] by (elim exE) (rule that)
  obtain new where n:
    "valorant_matches (fst (snd (walk toISO b rg lk page (ag0, 0)))) = valorant_matches (fst (ag0, 0::nat)) @ new \<and>
     snd (snd (walk toISO b rg lk page (ag0, 0))) = snd (ag0, 0::nat) + length new \<and>
     distinct (map m_id new) \<and>
     set (map m_id new) = set (walked toISO lk page) - m_id ` set (valorant_matches (fst (ag0, 0::nat))) \<and>
     (\<forall>r\<in>set new. m_name r = name b \<and> m_tag r = tag b \<and> m_region r = rg)"
    using walk_matches [of toISO b rg lk page "(ag0, 0)"] ..
  have app: "valorant_matches ?ag' = valorant_matches ag @ new" using t n by simp
  have own: "\<forall>r\<in>set new. m_name r = name b \<and> m_tag r = tag b" using n by simp
  have disj: "set (map m_id new) \<inter> m_id ` set (valorant_matches ag) = {}"
    using t n by auto
  have d1: "distinct (map m_id (valorant_matches ag)) \<Longrightarrow> distinct (map m_id (valorant_matches ?ag'))"
    using n disj unfolding app by (simp add: Int_commute)
  have d2: "distinct (map match_id (valorant_player_stats ag)) \<Longrightarrow>
      distinct (map match_id (valorant_player_stats ?ag'))"
    using walk_stats_distinct [where st = "(ag0, 0)" and toISO = toISO and a = b and rg = rg and lk = lk and ms = page] t by simp
  have sub: "set (walked toISO lk page) \<subseteq> served_ids up"
  proof
    fix i assume "i \<in> set (walked toISO lk page)"
    then have i: "Some i \<in> matchId_of ` set page" using walked_subset [of toISO lk page] by auto
    then have "page \<noteq> []" by auto
    then have j: "json_data (up k rg) = Some page" using t by simp
    obtain m where m: "m \<in> set page" "matchId_of m = Some i" using i by auto
    have "\<exists>n rg page m. json_data (up n rg) = Some page \<and> m \<in> set page \<and> matchId_of m = Some i"
      using j m by blast
    then show "i \<in> served_ids up" by (simp add: served_ids_def)
  qed
  have st: "filter (\<lambda>r. match_id r \<notin> served_ids up) (valorant_player_stats ?ag') =
           filter (\<lambda>r. match_id r \<notin> served_ids up) (valorant_player_stats ag)"
    using walk_stats_other [OF sub, where a = b and rg = rg and st = "(ag0, 0)"] t by simp
  show ?thesis
    using queries_other_player(1) [OF app own assms(2), of fl mp n]
      queries_other_player(2) [OF app own assms(2), of n] d1 d2 st
      select_recent_only_active [of _ ?ag' b n] select_summary_only_active [of _ ?ag' b mp n]
    by (intro conjI ballI impI) simp_all
qed

theorem players_partitioned_by_name_tag_witness:
  "activePlayer bob_active = Some bob \<and>
   queryKDR exact_ops None 20 (bob_synced\<lparr>activePlayer := Some alice\<rparr>) =
     queryKDR exact_ops None 20 (bob_active\<lparr>activePlayer := Some alice\<rparr>) \<and>
   queryKDR exact_ops None 20 (bob_active\<lparr>activePlayer := Some alice\<rparr>) =
     KDR_Result \<lparr>matchesConsidered = 2, kdr_map = ''all'', averageKDR = Finite 2\<rparr> \<and>
   listRecentMatches 20 (bob_synced\<lparr>activePlayer := Some alice\<rparr>) =
     listRecentMatches 20 (bob_active\<lparr>activePlayer := Some alice\<rparr>) \<and>
   distinct (map m_id (valorant_matches bob_synced)) \<and>
   distinct (map match_id (valorant_player_stats bob_synced)) \<and>
   filter (\<lambda>r. match_id r \<notin> served_ids (serving [shared ''M8'', shared ''M5'']))
       (valorant_player_stats bob_synced) =
     filter (\<lambda>r. match_id r \<notin> served_ids (serving [shared ''M8'', shared ''M5'']))
       (valorant_player_stats bob_active)"
proof -
  have act: "activePlayer bob_active = Some bob" by code_simp
  have other: "name alice \<noteq> name bob \<or> tag alice \<noteq> tag bob" by (simp add: alice_def bob_def)
  have d: "distinct (map m_id (valorant_matches bob_active))"
    "distinct (map match_id (valorant_player_stats bob_active))"
    by code_simp+
  have v: "queryKDR exact_ops None 20 (bob_active\<lparr>activePlayer := Some alice\<rparr>) =
     KDR_Result \<lparr>matchesConsidered = 2, kdr_map = ''all'', averageKDR = Finite 2\<rparr>"
    by code_simp
  have s: "fst (snd (ingestOrRefreshMatches no_iso (serving [shared ''M8'', shared ''M5'']) bob_active)) =
      bob_synced"
    by (simp add: bob_synced_def sync_def)
  note R = players_partitioned_by_name_tag [OF act other, of exact_ops None 20 no_iso
      "serving [shared ''M8'', shared ''M5'']", unfolded s]
  show ?thesis using R act d v by simp
qed

text \<open>
  C3 as stated fails: alice and bob played \<open>M5\<close> together. After alice's sync, bob's sync
  and setting alice active again, the statistics of alice for \<open>M5\<close> are gone (the row of
  \<open>M5\<close> in \<open>valorant_player_stats\<close> is bob's now), and \<open>valorant_matches\<close> has no row of
  \<open>M5\<close> for bob: there is one row per match id, whoever synced first or last.
\<close>

theorem rows_per_match_and_player_counterexample:
  "activePlayer alice_again = activePlayer alice_synced \<and>
   map match_id (select_summary alice_synced alice None 10) = [''M5'', ''M4''] \<and>
   map match_id (select_summary alice_again alice None 10) = [''M4''] \<and>
   map (\<lambda>r. (m_id r, m_name r)) (valorant_matches bob_synced) =
     [(''M5'', ''alice''), (''M4'', ''alice''), (''M8'', ''bob'')] \<and>
   map (\<lambda>r. (match_id r, ps_name r)) (valorant_player_stats bob_synced) =
     [(''M4'', ''alice''), (''M8'', ''bob''), (''M5'', ''bob'')] \<and>
   select_kdr bob_synced bob None 20 = [(Some 7, Some 7)] \<and>
   map match_id (select_summary bob_synced bob None 10) = [''M8'', ''M5'']"
  by code_simp

subsection \<open>The sync on either path of the region resolution\<close>

lemma REGIONS_nonempty: "j < length REGIONS \<Longrightarrow> REGIONS ! j \<noteq> []"
proof -
  have "\<forall>r\<in>set REGIONS. r \<noteq> []" by (simp add: REGIONS_def)
  then show "j < length REGIONS \<Longrightarrow> REGIONS ! j \<noteq> []" using nth_mem by blast
qed

text \<open>The loop and the rest of the sync read name and tag of the active player only.\<close>

lemma find_player_region: "find_player (a\<lparr>region := x\<rparr>) ps = find_player a ps"
  by (simp add: find_player_def)

lemma match_row_of_region:
  "match_row_of (a\<lparr>region := x\<rparr>) rg i s m = match_row_of a rg i s m"
  unfolding match_row_of_def find_player_region by simp

lemma stats_row_of_region:
  "stats_row_of (a\<lparr>region := x\<rparr>) rg i m = stats_row_of a rg i m"
  unfolding stats_row_of_def find_player_region by simp

lemma store_match_region:
  "store_match (a\<lparr>region := x\<rparr>) rg i s m st = store_match a rg i s m st"
  unfolding store_match_def match_row_of_region stats_row_of_region ..

lemma walk_region: "walk toISO (a\<lparr>region := x\<rparr>) rg lk ms st = walk toISO a rg lk ms st"
  by (induction ms arbitrary: st) (auto simp: store_match_region split: completion.splits)

lemma ingest_resolved_region:
  "ingest_resolved toISO up (a\<lparr>region := x\<rparr>) rg reqs ag = ingest_resolved toISO up a rg reqs ag"
proof -
  have n: "name (a\<lparr>region := x\<rparr>) = name a" "tag (a\<lparr>region := x\<rparr>) = tag a"
    by simp_all
  show ?thesis unfolding ingest_resolved_def walk_region n ..
qed

lemma ingest_known_region:
  assumes "activePlayer ag = Some a" and "name a \<noteq> []" and "tag a \<noteq> []"
    and "region a = Some rg" and "rg \<noteq> []"
  shows "ingestOrRefreshMatches toISO up ag = ingest_resolved toISO up a rg [] ag"
  using assms by (simp add: ingestOrRefreshMatches_def)

lemma ingest_probe_none:
  assumes "activePlayer ag = Some a" "name a \<noteq> []" "tag a \<noteq> []" "\<not> truthy (region a)"
    and "\<forall>i<length REGIONS. \<not> returns_data (up i (REGIONS ! i))"
  shows "ingestOrRefreshMatches toISO up ag = (RegionUnresolved, ag, REGIONS)"
proof -
  have "probe up [] REGIONS = (None, [] @ REGIONS)"
    by (intro probe_none) (use assms(5) in simp)
  then show ?thesis using assms(1-4) by (simp add: ingestOrRefreshMatches_def)
qed

subsection \<open>Idempotence of the sync\<close>

text \<open>
  C1: for every active player, a second sync in succession, the upstream returning the
  same both times, leaves table \<open>valorant_matches\<close> as the first sync left it (no row is
  inserted, and the reply reports 0 new matches) and leaves table \<open>player_cursor\<close>, hence
  the cursor's \<open>last_match_id\<close> and \<open>last_started_at\<close>, as the first left it. The three
  cases of the hypothesis are all the ways the first sync can go. The region is known:
  both syncs make one request, answered the same. The region is absent and candidate
  \<open>j\<close> is the first to return data: the first sync fetches the page with request
  \<open>j + 1\<close>, the second, which finds the region stored, with its request 0, answered the
  same. The region is absent and no candidate returns data, in either sync. It holds
  whether or not a cursor row was stored before the first sync.
\<close>

theorem sync_twice_idempotent:
  assumes "activePlayer ag = Some a"
    and "(truthy (region a) \<and> region a = Some rg \<and> up2 0 rg = up1 0 rg) \<or>
         (\<not> truthy (region a) \<and> j < length REGIONS \<and> rg = REGIONS ! j \<and>
          returns_data (up1 j rg) \<and> (\<forall>i<j. \<not> returns_data (up1 i (REGIONS ! i))) \<and>
          up2 0 rg = up1 (Suc j) rg) \<or>
         (\<not> truthy (region a) \<and>
          (\<forall>i<length REGIONS. \<not> returns_data (up1 i (REGIONS ! i))) \<and>
          (\<forall>i<length REGIONS. \<not> returns_data (up2 i (REGIONS ! i))))"
  shows "valorant_matches (fst (snd (ingestOrRefreshMatches toISO up2
             (fst (snd (ingestOrRefreshMatches toISO up1 ag)))))) =
         valorant_matches (fst (snd (ingestOrRefreshMatches toISO up1 ag))) \<and>
         player_cursor (fst (snd (ingestOrRefreshMatches toISO up2
             (fst (snd (ingestOrRefreshMatches toISO up1 ag)))))) =
         player_cursor (fst (snd (ingestOrRefreshMatches toISO up1 ag))) \<and>
         new_matches_stored (fst (ingestOrRefreshMatches toISO up2
             (fst (snd (ingestOrRefreshMatches toISO up1 ag))))) = 0"
proof (cases "name a = [] \<or> tag a = []")
  case True
  then show ?thesis using assms(1) by (simp add: ingestOrRefreshMatches_def)
next
  case False
  then have nm: "name a \<noteq> []" "tag a \<noteq> []" by simp_all
  consider
    (known) "truthy (region a)" "region a = Some rg" "up2 0 rg = up1 0 rg"
  | (probed) "\<not> truthy (region a)" "j < length REGIONS" "rg = REGIONS ! j"
      "returns_data (up1 j rg)" "\<forall>i<j. \<not> returns_data (up1 i (REGIONS ! i))"
      "up2 0 rg = up1 (Suc j) rg"
  | (unresolved) "\<not> truthy (region a)"
      "\<forall>i<length REGIONS. \<not> returns_data (up1 i (REGIONS ! i))"
      "\<forall>i<length REGIONS. \<not> returns_data (up2 i (REGIONS ! i))"
    using assms(2) by blast
  then show ?thesis
  proof cases
    case known
    then have rg: "rg \<noteq> []" by auto
    let ?ag1 = "fst (snd (ingest_resolved toISO up1 a rg [] ag))"
    have one: "ingestOrRefreshMatches toISO up1 ag = ingest_resolved toISO up1 a rg [] ag"
      by (rule ingest_known_region [OF assms(1) nm known(2) rg])
    have act: "activePlayer ?ag1 = Some a"
      using ingest_resolved_active [of toISO up1 a rg "[]" ag] assms(1) by simp
    have two: "ingestOrRefreshMatches toISO up2 ?ag1 = ingest_resolved toISO up2 a rg [] ?ag1"
      by (rule ingest_known_region [OF act nm known(2) rg])
    show ?thesis
      unfolding one two
      using ingest_resolved_twice [of up2 "[]" rg up1 "[]" toISO a ag] known(3) by simp
  next
    case probed
    let ?a = "a\<lparr>region := Some rg\<rparr>"
    let ?ag0 = "ag\<lparr>activePlayer := Some ?a\<rparr>"
    let ?reqs = "take (Suc j) REGIONS"
    let ?ag1 = "fst (snd (ingest_resolved toISO up1 a rg ?reqs ?ag0))"
    have rg: "rg \<noteq> []" using probed(2,3) REGIONS_nonempty by simp
    have one: "ingestOrRefreshMatches toISO up1 ag = ingest_resolved toISO up1 a rg ?reqs ?ag0"
      using ingest_probe_first [OF assms(1) nm probed(1) probed(2), of up1 toISO] probed(3,4,5)
      by simp
    have act: "activePlayer ?ag1 = Some ?a"
      using ingest_resolved_active [of toISO up1 a rg ?reqs ?ag0] by simp
    have "ingestOrRefreshMatches toISO up2 ?ag1 = ingest_resolved toISO up2 ?a rg [] ?ag1"
      by (rule ingest_known_region [OF act]) (use nm rg in simp_all)
    then have two: "ingestOrRefreshMatches toISO up2 ?ag1 = ingest_resolved toISO up2 a rg [] ?ag1"
      by (simp only: ingest_resolved_region)
    have len: "length ?reqs = Suc j" using probed(2) by simp
    have same: "up2 (length ([]::string list)) rg = up1 (length ?reqs) rg"
      unfolding len using probed(6) by simp
    show ?thesis
      unfolding one two
      by (rule ingest_resolved_twice [of up2 "[]" rg up1 ?reqs toISO a ?ag0, OF same])
  next
    case unresolved
    have one: "ingestOrRefreshMatches toISO up1 ag = (RegionUnresolved, ag, REGIONS)"
      by (rule ingest_probe_none [where up = up1, OF assms(1) nm unresolved(1) unresolved(2)])
    have two: "ingestOrRefreshMatches toISO up2 ag = (RegionUnresolved, ag, REGIONS)"
      by (rule ingest_probe_none [where up = up2, OF assms(1) nm unresolved(1) unresolved(3)])
    show ?thesis by (simp add: one two)
  qed
qed

theorem sync_twice_idempotent_witness:
  "select_cursor (player_cursor alice_at_M5) ''na:alice:1'' = Some ''M5'' \<and>
   fst (ingestOrRefreshMatches no_iso (serving page5) alice_at_M5) = Refreshed ''alice'' ''1'' ''na'' 3 \<and>
   valorant_matches (fst (snd (ingestOrRefreshMatches no_iso (serving page5)
       (fst (snd (ingestOrRefreshMatches no_iso (serving page5) alice_at_M5)))))) =
     valorant_matches (fst (snd (ingestOrRefreshMatches no_iso (serving page5) alice_at_M5))) \<and>
   player_cursor (fst (snd (ingestOrRefreshMatches no_iso (serving page5)
       (fst (snd (ingestOrRefreshMatches no_iso (serving page5) alice_at_M5)))))) =
     player_cursor (fst (snd (ingestOrRefreshMatches no_iso (serving page5) alice_at_M5))) \<and>
   new_matches_stored (fst (ingestOrRefreshMatches no_iso (serving page5)
       (fst (snd (ingestOrRefreshMatches no_iso (serving page5) alice_at_M5))))) = 0 \<and>
   activePlayer alice_regionless = Some alice_unplaced \<and>
   select_cursor (player_cursor alice_regionless) ''na:alice:1'' = Some ''M5'' \<and>
   fst (ingestOrRefreshMatches no_iso (serving page5) alice_regionless) =
     Refreshed ''alice'' ''1'' ''na'' 2 \<and>
   snd (snd (ingestOrRefreshMatches no_iso (serving page5) alice_regionless)) = [''na'', ''na''] \<and>
   valorant_matches (fst (snd (ingestOrRefreshMatches no_iso (serving page5)
       (fst (snd (ingestOrRefreshMatches no_iso (serving page5) alice_regionless)))))) =
     valorant_matches (fst (snd (ingestOrRefreshMatches no_iso (serving page5) alice_regionless))) \<and>
   player_cursor (fst (snd (ingestOrRefreshMatches no_iso (serving page5)
       (fst (snd (ingestOrRefreshMatches no_iso (serving page5) alice_regionless)))))) =
     player_cursor (fst (snd (ingestOrRefreshMatches no_iso (serving page5) alice_regionless))) \<and>
   new_matches_stored (fst (ingestOrRefreshMatches no_iso (serving page5)
       (fst (snd (ingestOrRefreshMatches no_iso (serving page5) alice_regionless))))) = 0"
proof -
  have h1: "activePlayer alice_at_M5 = Some alice" by (simp add: alice_at_M5_def)
  have h2: "(truthy (region alice) \<and> region alice = Some ''na'' \<and>
             serving page5 0 ''na'' = serving page5 0 ''na'') \<or>
         (\<not> truthy (region alice) \<and> 0 < length REGIONS \<and> ''na'' = REGIONS ! 0 \<and>
          returns_data (serving page5 0 ''na'') \<and>
          (\<forall>i<0. \<not> returns_data (serving page5 i (REGIONS ! i))) \<and>
          serving page5 0 ''na'' = serving page5 (Suc 0) ''na'') \<or>
         (\<not> truthy (region alice) \<and>
          (\<forall>i<length REGIONS. \<not> returns_data (serving page5 i (REGIONS ! i))) \<and>
          (\<forall>i<length REGIONS. \<not> returns_data (serving page5 i (REGIONS ! i))))"
    by (simp add: alice_def)
  have h3: "select_cursor (player_cursor alice_at_M5) ''na:alice:1'' = Some ''M5''"
    by (simp add: alice_at_M5_def select_cursor_def)
  have h4: "fst (ingestOrRefreshMatches no_iso (serving page5) alice_at_M5) =
      Refreshed ''alice'' ''1'' ''na'' 3"
    by code_simp
  have g1: "activePlayer alice_regionless = Some alice_unplaced" by code_simp
  have g2: "(truthy (region alice_unplaced) \<and> region alice_unplaced = Some ''na'' \<and>
             serving page5 0 ''na'' = serving page5 0 ''na'') \<or>
         (\<not> truthy (region alice_unplaced) \<and> 0 < length REGIONS \<and> ''na'' = REGIONS ! 0 \<and>
          returns_data (serving page5 0 ''na'') \<and>
          (\<forall>i<0. \<not> returns_data (serving page5 i (REGIONS ! i))) \<and>
          serving page5 0 ''na'' = serving page5 (Suc 0) ''na'') \<or>
         (\<not> truthy (region alice_unplaced) \<and>
          (\<forall>i<length REGIONS. \<not> returns_data (serving page5 i (REGIONS ! i))) \<and>
          (\<forall>i<length REGIONS. \<not> returns_data (serving page5 i (REGIONS ! i))))"
    by (simp add: alice_unplaced_def REGIONS_def serving_def returns_data_def page5_def)
  have g3: "select_cursor (player_cursor alice_regionless) ''na:alice:1'' = Some ''M5''"
    by code_simp
  have g4: "fst (ingestOrRefreshMatches no_iso (serving page5) alice_regionless) =
     Refreshed ''alice'' ''1'' ''na'' 2"
    "snd (snd (ingestOrRefreshMatches no_iso (serving page5) alice_regionless)) = [''na'', ''na'']"
    by code_simp+
  note K = sync_twice_idempotent [OF h1 h2, of no_iso]
  note P = sync_twice_idempotent [OF g1 g2, of no_iso]
  show ?thesis
    by (intro conjI h3 h4 g1 g3 g4 K [THEN conjunct1] K [THEN conjunct2, THEN conjunct1]
          K [THEN conjunct2, THEN conjunct2] P [THEN conjunct1] P [THEN conjunct2, THEN conjunct1]
          P [THEN conjunct2, THEN conjunct2])
qed

subsection \<open>The stop at the known match, on either path\<close>

lemma ingest_resolved_stops:
  assumes page: "res_ok (up (length reqs) rg)" "json_data (up (length reqs) rg) = Some (pre @ M # post)"
    and page': "res_ok (up' (length reqs) rg)" "json_data (up' (length reqs) rg) = Some (pre @ M # post')"
    and cur: "select_cursor (player_cursor ag) (rg @ '':'' @ name a @ '':'' @ tag a) = Some k"
    and k: "k \<noteq> []" "matchId_of M = Some k" "\<forall>m\<in>set pre. matchId_of m \<noteq> Some k"
    and nothrow: "\<forall>m\<in>set (pre @ [M]). started_of toISO m \<noteq> Threw"
  shows "\<exists>new ag'.
           ingest_resolved toISO up a rg reqs ag =
             (Refreshed (name a) (tag a) rg (length new), ag', reqs @ [rg]) \<and>
           valorant_matches ag' = valorant_matches ag @ new \<and>
           distinct (map m_id new) \<and>
           set (map m_id new) =
             {i. i \<noteq> [] \<and> Some i \<in> matchId_of ` set pre} - m_id ` set (valorant_matches ag) \<and>
           filter (\<lambda>r. match_id r \<notin> {i. i \<noteq> [] \<and> Some i \<in> matchId_of ` set pre})
               (valorant_player_stats ag') =
             filter (\<lambda>r. match_id r \<notin> {i. i \<noteq> [] \<and> Some i \<in> matchId_of ` set pre})
               (valorant_player_stats ag) \<and>
           ingest_resolved toISO up' a rg reqs ag = ingest_resolved toISO up a rg reqs ag"
proof -
  let ?key = "rg @ '':'' @ name a @ '':'' @ tag a"
  let ?S = "{i. i \<noteq> [] \<and> Some i \<in> matchId_of ` set pre}"
  have pre: "\<forall>m\<in>set pre. matchId_of m \<noteq> Some k \<and> started_of toISO m \<noteq> Threw"
    using k(3) nothrow by simp
  obtain b ag1 n1 where w: "walk toISO a rg (Some k) pre (ag, 0) = (b, ag1, n1)"
    by (cases "walk toISO a rg (Some k) pre (ag, 0)") auto
  have b: "b = True" using walk_all(1) [OF pre, where a = a and rg = rg and st = "(ag, 0)"] w by simp
  obtain new where n:
    "valorant_matches (fst (snd (walk toISO a rg (Some k) pre (ag, 0)))) = valorant_matches (fst (ag, 0::nat)) @ new \<and>
     snd (snd (walk toISO a rg (Some k) pre (ag, 0))) = snd (ag, 0::nat) + length new \<and>
     distinct (map m_id new) \<and>
     set (map m_id new) = set (walked toISO (Some k) pre) - m_id ` set (valorant_matches (fst (ag, 0::nat))) \<and>
     (\<forall>r\<in>set new. m_name r = name a \<and> m_tag r = tag a \<and> m_region r = rg)"
    using walk_matches [of toISO a rg "Some k" pre "(ag, 0)"] ..
  have m1: "valorant_matches ag1 = valorant_matches ag @ new" and n1: "n1 = length new"
    and d: "distinct (map m_id new)"
    and ids: "set (map m_id new) = ?S - m_id ` set (valorant_matches ag)"
    using n w walk_all(2) [OF pre] by simp_all
  have st: "filter (\<lambda>r. match_id r \<notin> ?S) (valorant_player_stats ag1) =
            filter (\<lambda>r. match_id r \<notin> ?S) (valorant_player_stats ag)"
    using walk_stats_other [OF walked_subset, where toISO = toISO and lk = "Some k" and ms = pre and a = a and rg = rg and st = "(ag, 0)"] w by simp
  obtain newest where nw: "newest_of toISO (pre @ [M]) = Normal newest"
  proof (cases "newest_of toISO (pre @ [M])")
    case Threw
    then have False using nothrow
      by (cases pre) (auto simp: newest_of_def split: completion.splits)
    then show ?thesis ..
  next
    case (Normal x)
    then show ?thesis using that by simp
  qed
  define ag' where "ag' =
    (if truthy (fst newest)
     then ag1\<lparr>player_cursor :=
                upsert_cursor \<lparr>pk = ?key, last_match_id = fst newest, last_started_at = snd newest\<rparr>
                  (player_cursor ag1)\<rparr>
     else ag1)"
  have resolved: "ingest_resolved toISO u a rg reqs ag = (Refreshed (name a) (tag a) rg n1, ag', reqs @ [rg])"
    if "res_ok (u (length reqs) rg)" and "json_data (u (length reqs) rg) = Some (pre @ M # p)" for u p
  proof -
    have f: "ok (fetchLatestCompetitive u (length reqs) rg)"
      "data (fetchLatestCompetitive u (length reqs) rg) = pre @ M # p"
      using fetch_ok [of u "length reqs" rg "pre @ M # p"] that by simp_all
    have nw': "newest_of toISO (data (fetchLatestCompetitive u (length reqs) rg)) = Normal newest"
      unfolding f(2) using nw newest_of_append [of toISO pre M p] by simp
    have w': "walk toISO a rg (select_cursor (player_cursor ag) ?key)
        (data (fetchLatestCompetitive u (length reqs) rg)) (ag, 0) = (b, ag1, n1)"
      unfolding f(2) cur
      using w walk_stop [OF k(2) k(1) k(3), where toISO = toISO and a = a and rg = rg and post = p and st = "(ag, 0)"]
      by simp
    show ?thesis
      using ingest_resolved_walk [OF f(1) nw' w'] b by (simp add: ag'_def)
  qed
  have "valorant_matches ag' = valorant_matches ag1"
    and "valorant_player_stats ag' = valorant_player_stats ag1"
    by (simp_all add: ag'_def)
  then show ?thesis
    using resolved [of up post, OF page] resolved [of up' post', OF page'] m1 n1 d ids st
    by (intro exI [of _ new] exI [of _ ag']) simp
qed

text \<open>
  C2, as amended: for every sync whose fetched page is \<open>pre @ M # post\<close>, where the stored
  cursor's \<open>last_match_id\<close> is the (non-empty) id of \<open>M\<close>, none of \<open>pre\<close> has that id, and
  \<open>toISOString\<close> accepts the timestamps up to \<open>M\<close>, the sync walks \<open>pre\<close> in order and
  stops at \<open>M\<close>: the rows it adds to \<open>valorant_matches\<close> are exactly one for each non-empty
  id of \<open>pre\<close> that the table did not hold before (not one for every match of \<open>pre\<close>),
  the reply counts them, the rows of \<open>valorant_player_stats\<close> of every other match are
  untouched, and nothing depends on \<open>post\<close>: with any other matches after \<open>M\<close> the
  reply, the agent and the requests are the same. The page is the answer to request
  \<open>q\<close>: request 0 when the region is known, the request after the first successful
  probe \<open>j\<close> when the region is absent and resolved by probing; the cursor is the one of
  the region the sync uses.
\<close>

theorem sync_stops_at_cursor:
  assumes act: "activePlayer ag = Some a" "name a \<noteq> []" "tag a \<noteq> []"
    and rg: "(truthy (region a) \<and> region a = Some rg \<and> q = 0) \<or>
             (\<not> truthy (region a) \<and> j < length REGIONS \<and> rg = REGIONS ! j \<and> q = Suc j \<and>
              returns_data (up j rg) \<and> (\<forall>i<j. \<not> returns_data (up i (REGIONS ! i))) \<and>
              returns_data (up' j rg) \<and> (\<forall>i<j. \<not> returns_data (up' i (REGIONS ! i))))"
    and page: "res_ok (up q rg)" "json_data (up q rg) = Some (pre @ M # post)"
    and page': "res_ok (up' q rg)" "json_data (up' q rg) = Some (pre @ M # post')"
    and cur: "select_cursor (player_cursor ag) (rg @ '':'' @ name a @ '':'' @ tag a) = Some k"
    and k: "k \<noteq> []" "matchId_of M = Some k" "\<forall>m\<in>set pre. matchId_of m \<noteq> Some k"
    and nothrow: "\<forall>m\<in>set (pre @ [M]). started_of toISO m \<noteq> Threw"
  shows "\<exists>new ag'.
           ingestOrRefreshMatches toISO up ag =
             (Refreshed (name a) (tag a) rg (length new), ag', take q REGIONS @ [rg]) \<and>
           valorant_matches ag' = valorant_matches ag @ new \<and>
           distinct (map m_id new) \<and>
           set (map m_id new) =
             {i. i \<noteq> [] \<and> Some i \<in> matchId_of ` set pre} - m_id ` set (valorant_matches ag) \<and>
           filter (\<lambda>r. match_id r \<notin> {i. i \<noteq> [] \<and> Some i \<in> matchId_of ` set pre})
               (valorant_player_stats ag') =
             filter (\<lambda>r. match_id r \<notin> {i. i \<noteq> [] \<and> Some i \<in> matchId_of ` set pre})
               (valorant_player_stats ag) \<and>
           ingestOrRefreshMatches toISO up' ag = ingestOrRefreshMatches toISO up ag"
proof -
  consider
    (known) "truthy (region a)" "region a = Some rg" "q = 0"
  | (probed) "\<not> truthy (region a)" "j < length REGIONS" "rg = REGIONS ! j" "q = Suc j"
      "returns_data (up j rg)" "\<forall>i<j. \<not> returns_data (up i (REGIONS ! i))"
      "returns_data (up' j rg)" "\<forall>i<j. \<not> returns_data (up' i (REGIONS ! i))"
    using rg by blast
  then show ?thesis
  proof cases
    case known
    then have ne: "rg \<noteq> []" by auto
    have top: "ingestOrRefreshMatches toISO u ag = ingest_resolved toISO u a rg [] ag" for u
      by (rule ingest_known_region [OF act known(2) ne])
    have l: "length ([]::string list) = q" using known(3) by simp
    show ?thesis
      using ingest_resolved_stops [where reqs = "[]" and up = up and up' = up' and rg = rg
          and ag = ag and a = a, unfolded l, OF page page' cur k nothrow]
      unfolding top using known(3) by simp
  next
    case probed
    let ?ag0 = "ag\<lparr>activePlayer := Some (a\<lparr>region := Some rg\<rparr>)\<rparr>"
    let ?reqs = "take (Suc j) REGIONS"
    have l: "length ?reqs = q" using probed(2,4) by simp
    have one: "ingestOrRefreshMatches toISO up ag = ingest_resolved toISO up a rg ?reqs ?ag0"
      using ingest_probe_first [OF act probed(1) probed(2), of up toISO] probed(3,5,6) by simp
    have one': "ingestOrRefreshMatches toISO up' ag = ingest_resolved toISO up' a rg ?reqs ?ag0"
      using ingest_probe_first [OF act probed(1) probed(2), of up' toISO] probed(3,7,8) by simp
    have cur0: "select_cursor (player_cursor ?ag0) (rg @ '':'' @ name a @ '':'' @ tag a) = Some k"
      using cur by simp
    show ?thesis
      using ingest_resolved_stops [where reqs = ?reqs and up = up and up' = up' and rg = rg
          and ag = ?ag0 and a = a, unfolded l, OF page page' cur0 k nothrow]
      unfolding one one' using probed(4) by simp
  qed
qed

theorem sync_stops_at_cursor_witness:
  "select_cursor (player_cursor alice_again) ''na:alice:1'' = Some ''M5'' \<and>
   (\<exists>new ag'.
     ingestOrRefreshMatches no_iso
       (serving ([shared ''M8'', shared ''M7'', shared ''M6''] @ shared ''M5'' # [shared ''M4'']))
       alice_again =
       (Refreshed (name alice) (tag alice) ''na'' (length new), ag', take 0 REGIONS @ [''na'']) \<and>
     valorant_matches ag' = valorant_matches alice_again @ new \<and>
     distinct (map m_id new) \<and>
     set (map m_id new) =
       {i. i \<noteq> [] \<and> Some i \<in> matchId_of ` set [shared ''M8'', shared ''M7'', shared ''M6'']} -
       m_id ` set (valorant_matches alice_again) \<and>
     filter (\<lambda>r. match_id r \<notin>
                {i. i \<noteq> [] \<and> Some i \<in> matchId_of ` set [shared ''M8'', shared ''M7'', shared ''M6'']})
         (valorant_player_stats ag') =
       filter (\<lambda>r. match_id r \<notin>
                {i. i \<noteq> [] \<and> Some i \<in> matchId_of ` set [shared ''M8'', shared ''M7'', shared ''M6'']})
         (valorant_player_stats alice_again) \<and>
     ingestOrRefreshMatches no_iso
       (serving ([shared ''M8'', shared ''M7'', shared ''M6''] @ shared ''M5'' # [])) alice_again =
     ingestOrRefreshMatches no_iso
       (serving ([shared ''M8'', shared ''M7'', shared ''M6''] @ shared ''M5'' # [shared ''M4'']))
       alice_again) \<and>
   activePlayer alice_regionless = Some alice_unplaced \<and>
   select_cursor (player_cursor alice_regionless) ''na:alice:1'' = Some ''M5'' \<and>
   (\<exists>new ag'.
     ingestOrRefreshMatches no_iso
       (serving ([shared ''M8'', shared ''M7'', shared ''M6''] @ shared ''M5'' # [shared ''M4'']))
       alice_regionless =
       (Refreshed (name alice_unplaced) (tag alice_unplaced) ''na'' (length new), ag',
        take (Suc 0) REGIONS @ [''na'']) \<and>
     valorant_matches ag' = valorant_matches alice_regionless @ new \<and>
     distinct (map m_id new) \<and>
     set (map m_id new) =
       {i. i \<noteq> [] \<and> Some i \<in> matchId_of ` set [shared ''M8'', shared ''M7'', shared ''M6'']} -
       m_id ` set (valorant_matches alice_regionless) \<and>
     filter (\<lambda>r. match_id r \<notin>
                {i. i \<noteq> [] \<and> Some i \<in> matchId_of ` set [shared ''M8'', shared ''M7'', shared ''M6'']})
         (valorant_player_stats ag') =
       filter (\<lambda>r. match_id r \<notin>
                {i. i \<noteq> [] \<and> Some i \<in> matchId_of ` set [shared ''M8'', shared ''M7'', shared ''M6'']})
         (valorant_player_stats alice_regionless) \<and>
     ingestOrRefreshMatches no_iso
       (serving ([shared ''M8'', shared ''M7'', shared ''M6''] @ shared ''M5'' # [])) alice_regionless =
     ingestOrRefreshMatches no_iso
       (serving ([shared ''M8'', shared ''M7'', shared ''M6''] @ shared ''M5'' # [shared ''M4'']))
       alice_regionless) \<and>
   fst (ingestOrRefreshMatches no_iso
       (serving ([shared ''M8'', shared ''M7'', shared ''M6''] @ shared ''M5'' # [shared ''M4'']))
       alice_regionless) = Refreshed ''alice'' ''1'' ''na'' 2"
proof -
  let ?pre = "[shared ''M8'', shared ''M7'', shared ''M6'']"
  let ?up = "serving (?pre @ shared ''M5'' # [shared ''M4''])"
  let ?up' = "serving (?pre @ shared ''M5'' # [])"
  have act: "activePlayer alice_again = Some alice" by code_simp
  have nm: "name alice \<noteq> []" "tag alice \<noteq> []" by (simp_all add: alice_def)
  have rg: "(truthy (region alice) \<and> region alice = Some ''na'' \<and> (0::nat) = 0) \<or>
             (\<not> truthy (region alice) \<and> 0 < length REGIONS \<and> ''na'' = REGIONS ! 0 \<and> (0::nat) = Suc 0 \<and>
              returns_data (?up 0 ''na'') \<and> (\<forall>i<0. \<not> returns_data (?up i (REGIONS ! i))) \<and>
              returns_data (?up' 0 ''na'') \<and> (\<forall>i<0. \<not> returns_data (?up' i (REGIONS ! i))))"
    by (simp add: alice_def)
  have cur0: "select_cursor (player_cursor alice_again) ''na:alice:1'' = Some ''M5''"
    by code_simp
  have cur: "select_cursor (player_cursor alice_again) (''na'' @ '':'' @ name alice @ '':'' @ tag alice) = Some ''M5''"
    using cur0 by (simp add: alice_def)
  have k: "''M5'' \<noteq> []" "matchId_of (shared ''M5'') = Some ''M5''"
    "\<forall>m\<in>set ?pre. matchId_of m \<noteq> Some ''M5''"
    by (simp_all add: shared_def game_def matchId_of_def)
  have nothrow: "\<forall>m\<in>set (?pre @ [shared ''M5'']). started_of no_iso m \<noteq> Threw"
    by (simp add: shared_def game_def started_of_def)
  have p: "res_ok (serving pg n ''na'')" "json_data (serving pg n ''na'') = Some pg" for pg n
    by (simp_all add: serving_def)
  have act2: "activePlayer alice_regionless = Some alice_unplaced" by code_simp
  have nm2: "name alice_unplaced \<noteq> []" "tag alice_unplaced \<noteq> []"
    by (simp_all add: alice_unplaced_def)
  have rg2: "(truthy (region alice_unplaced) \<and> region alice_unplaced = Some ''na'' \<and> Suc 0 = 0) \<or>
             (\<not> truthy (region alice_unplaced) \<and> 0 < length REGIONS \<and> ''na'' = REGIONS ! 0 \<and>
              Suc 0 = Suc 0 \<and>
              returns_data (?up 0 ''na'') \<and> (\<forall>i<0. \<not> returns_data (?up i (REGIONS ! i))) \<and>
              returns_data (?up' 0 ''na'') \<and> (\<forall>i<0. \<not> returns_data (?up' i (REGIONS ! i))))"
    by (simp add: alice_unplaced_def REGIONS_def serving_def returns_data_def)
  have cur20: "select_cursor (player_cursor alice_regionless) ''na:alice:1'' = Some ''M5''"
    by code_simp
  have cur2: "select_cursor (player_cursor alice_regionless)
      (''na'' @ '':'' @ name alice_unplaced @ '':'' @ tag alice_unplaced) = Some ''M5''"
    using cur20 by (simp add: alice_unplaced_def)
  have ev: "fst (ingestOrRefreshMatches no_iso ?up alice_regionless) = Refreshed ''alice'' ''1'' ''na'' 2"
    by code_simp
  note K = sync_stops_at_cursor [where ag = alice_again and a = alice and rg = "''na''"
          and q = 0 and j = 0 and up = ?up and up' = ?up'
          and pre = ?pre and M = "shared ''M5''" and post = "[shared ''M4'']" and post' = "[]"
          and k = "''M5''" and toISO = no_iso,
          OF act nm(1) nm(2) rg p(1) p(2) p(1) p(2) cur k(1) k(2) k(3) nothrow]
  note P = sync_stops_at_cursor [where ag = alice_regionless and a = alice_unplaced and rg = "''na''"
          and q = "Suc 0" and j = 0 and up = ?up and up' = ?up'
          and pre = ?pre and M = "shared ''M5''" and post = "[shared ''M4'']" and post' = "[]"
          and k = "''M5''" and toISO = no_iso,
          OF act2 nm2(1) nm2(2) rg2 p(1) p(2) p(1) p(2) cur2 k(1) k(2) k(3) nothrow]
  show ?thesis by (intro conjI cur0 K act2 cur20 P ev)
qed

end
